theory Spec2Isabelle
  imports Complex_Main
begin

section \<open>RetroCam: the data model of \<^verbatim>\<open>src/App.tsx\<close>\<close>

text \<open>
  The component \<^verbatim>\<open>App\<close> keeps its state in React state hooks. The model keeps the
  same fields in one record and turns every callback into a function from the state
  before the event to the state after it. Whatever a callback reads from the browser
  (the two refs, the clock, the canvas encoder, the interpretation of a CSS filter
  string) is an explicit argument, the record \<open>Browser\<close>.
\<close>

datatype FilterType = none | vintage | sepia | polaroid | noir | faded

datatype FacingMode = user | environment

type_synonym MediaStream = nat

record Photo =
  photo_id :: string
  dataUrl :: string
  photo_filter :: FilterType
  timestamp :: int

record FilterDescriptor =
  name :: FilterType
  label :: string
  css :: string

definition filters :: "FilterDescriptor list" where
  "filters =
    [\<lparr>name = none, label = ''Natural'', css = ''none''\<rparr>,
     \<lparr>name = vintage, label = ''70s Film'',
      css = ''sepia(0.3) contrast(1.1) saturate(1.3) brightness(1.05)''\<rparr>,
     \<lparr>name = sepia, label = ''Sepia'', css = ''sepia(0.8) contrast(1.1)''\<rparr>,
     \<lparr>name = polaroid, label = ''Polaroid'',
      css = ''contrast(1.1) brightness(1.1) saturate(1.2)''\<rparr>,
     \<lparr>name = noir, label = ''Noir'', css = ''grayscale(1) contrast(1.3) brightness(0.9)''\<rparr>,
     \<lparr>name = faded, label = ''Faded'',
      css = ''contrast(0.9) saturate(0.8) brightness(1.1)''\<rparr>]"

record AppState =
  stream :: "MediaStream option"
  currentFilter :: FilterType
  photos :: "Photo list"
  isCapturing :: bool
  showGallery :: bool
  selectedPhoto :: "Photo option"
  facingMode :: FacingMode
  flashActive :: bool
  filmCount :: int
  isLoading :: bool

text \<open>The initial values of the \<^verbatim>\<open>useState\<close> hooks.\<close>

definition initialState :: AppState where
  "initialState =
    \<lparr>stream = None, currentFilter = vintage, photos = [], isCapturing = False,
     showGallery = False, selectedPhoto = None, facingMode = environment,
     flashActive = False, filmCount = 24, isLoading = True\<rparr>"

subsection \<open>\<^verbatim>\<open>Number.prototype.toString\<close> on the integers \<^verbatim>\<open>Date.now()\<close> returns\<close>

text \<open>
  \<^verbatim>\<open>Date.now()\<close> is an integer number of milliseconds of absolute value at most
  8.64e15, where \<^verbatim>\<open>toString()\<close> is the plain decimal numeral, with a minus sign
  for a negative number.
\<close>

definition digit_char :: "nat \<Rightarrow> char" where
  "digit_char d = ''0123456789'' ! (d mod 10)"

fun string_of_nat :: "nat \<Rightarrow> string" where
  "string_of_nat n =
     (if n < 10 then [digit_char n] else string_of_nat (n div 10) @ [digit_char (n mod 10)])"

declare string_of_nat.simps [simp del]

definition toString :: "int \<Rightarrow> string" where
  "toString i = (if i < 0 then CHR ''-'' # string_of_nat (nat (- i)) else string_of_nat (nat i))"

subsection \<open>The video element and the canvas\<close>

text \<open>
  A video element shows one frame at the moment of the capture: \<open>frame v x y\<close> is the
  pixel in column \<open>x\<close> and row \<open>y\<close>, for \<open>x < videoWidth v\<close> and \<open>y < videoHeight v\<close>.
  The pixel type is left open.
\<close>

record 'p HTMLVideoElement =
  videoWidth :: nat
  videoHeight :: nat
  frame :: "nat \<Rightarrow> nat \<Rightarrow> 'p"

text \<open>
  The current transformation matrix of a 2D context. The code calls only
  \<^verbatim>\<open>translate\<close> and \<^verbatim>\<open>scale\<close>, so the matrix stays diagonal with a translation:
  a point \<open>(x, y)\<close> of user space is the point \<open>(m_a * x + m_e, m_d * y + m_f)\<close> of the
  bitmap.
\<close>

record Transform =
  m_a :: int
  m_d :: int
  m_e :: int
  m_f :: int

definition identityTransform :: Transform where
  "identityTransform = \<lparr>m_a = 1, m_d = 1, m_e = 0, m_f = 0\<rparr>"

text \<open>
  A canvas element with the state of its 2D context. A bitmap cell that nothing was
  drawn on is \<open>None\<close> (transparent). \<open>context2d\<close> says whether
  \<^verbatim>\<open>getContext('2d')\<close> returns a context rather than \<^verbatim>\<open>null\<close>.
\<close>

record 'p HTMLCanvasElement =
  context2d :: bool
  canvas_width :: nat
  canvas_height :: nat
  bitmap :: "int \<times> int \<Rightarrow> 'p option"
  ctm :: Transform
  ctx_filter :: string

text \<open>
  Assigning \<^verbatim>\<open>canvas.width\<close> or \<^verbatim>\<open>canvas.height\<close> clears the bitmap and resets
  the context to its default state, also when the value does not change.
\<close>

definition set_width :: "nat \<Rightarrow> 'p HTMLCanvasElement \<Rightarrow> 'p HTMLCanvasElement" where
  "set_width w c =
     c\<lparr>canvas_width := w, bitmap := (\<lambda>_. None), ctm := identityTransform,
       ctx_filter := ''none''\<rparr>"

definition set_height :: "nat \<Rightarrow> 'p HTMLCanvasElement \<Rightarrow> 'p HTMLCanvasElement" where
  "set_height h c =
     c\<lparr>canvas_height := h, bitmap := (\<lambda>_. None), ctm := identityTransform,
       ctx_filter := ''none''\<rparr>"

definition translate :: "int \<Rightarrow> int \<Rightarrow> 'p HTMLCanvasElement \<Rightarrow> 'p HTMLCanvasElement" where
  "translate tx ty c =
     c\<lparr>ctm := (ctm c)\<lparr>m_e := m_e (ctm c) + m_a (ctm c) * tx,
                       m_f := m_f (ctm c) + m_d (ctm c) * ty\<rparr>\<rparr>"

definition scale :: "int \<Rightarrow> int \<Rightarrow> 'p HTMLCanvasElement \<Rightarrow> 'p HTMLCanvasElement" where
  "scale sx sy c =
     c\<lparr>ctm := (ctm c)\<lparr>m_a := m_a (ctm c) * sx, m_d := m_d (ctm c) * sy\<rparr>\<rparr>"

text \<open>
  The bitmap column that the user-space interval \<open>[x, x + 1]\<close> lands on: the smaller
  of the images of its two ends. This is exact for the scale factors \<open>1\<close> and \<open>-1\<close>,
  the only ones the code sets.
\<close>

definition device_col :: "Transform \<Rightarrow> int \<Rightarrow> int" where
  "device_col t x = min (m_a t * x + m_e t) (m_a t * (x + 1) + m_e t)"

definition device_row :: "Transform \<Rightarrow> int \<Rightarrow> int" where
  "device_row t y = min (m_d t * y + m_f t) (m_d t * (y + 1) + m_f t)"

text \<open>Writing one pixel; a cell outside the bitmap is clipped.\<close>

definition put_pixel ::
  "nat \<Rightarrow> nat \<Rightarrow> int \<times> int \<Rightarrow> 'p \<Rightarrow> (int \<times> int \<Rightarrow> 'p option) \<Rightarrow> (int \<times> int \<Rightarrow> 'p option)" where
  "put_pixel w h cell p bm =
     (if 0 \<le> fst cell \<and> fst cell < int w \<and> 0 \<le> snd cell \<and> snd cell < int h
      then bm(cell := Some p) else bm)"

text \<open>
  \<^verbatim>\<open>ctx.drawImage(video, dx, dy)\<close>: every pixel of the frame is painted, through the
  context's filter, on the bitmap cell the current transformation sends it to.
  \<open>fx\<close> is the browser's reading of a CSS filter string as a function on pixels (each
  filter function in the catalog works pixel by pixel).
\<close>

definition source_cells :: "'p HTMLVideoElement \<Rightarrow> (nat \<times> nat) list" where
  "source_cells v = List.product [0..<videoWidth v] [0..<videoHeight v]"

definition drawImage ::
  "(string \<Rightarrow> 'p \<Rightarrow> 'p) \<Rightarrow> 'p HTMLVideoElement \<Rightarrow> int \<Rightarrow> int \<Rightarrow>
   'p HTMLCanvasElement \<Rightarrow> 'p HTMLCanvasElement" where
  "drawImage fx v dx dy c =
     c\<lparr>bitmap :=
        fold (\<lambda>(i, j). put_pixel (canvas_width c) (canvas_height c)
                (device_col (ctm c) (dx + int i), device_row (ctm c) (dy + int j))
                (fx (ctx_filter c) (frame v i j)))
          (source_cells v) (bitmap c)\<rparr>"

text \<open>The rows of the bitmap, top to bottom, each from left to right.\<close>

definition raster :: "'p HTMLCanvasElement \<Rightarrow> 'p option list list" where
  "raster c =
     map (\<lambda>y. map (\<lambda>x. bitmap c (int x, int y)) [0..<canvas_width c]) [0..<canvas_height c]"

subsection \<open>What a callback reads from the browser\<close>

text \<open>
  \<open>date_now\<close> is the value of \<^verbatim>\<open>Date.now()\<close> and \<open>new_date\<close> the time value of
  \<^verbatim>\<open>new Date()\<close>, two readings of the wall clock. \<open>encode mime q rows\<close> is the data
  URL the browser's encoder makes of a bitmap for a MIME type and a quality; the quality
  literal \<^verbatim>\<open>0.9\<close> is passed on as the rational \<open>9 / 10\<close>.
\<close>

record 'p Browser =
  videoRef :: "'p HTMLVideoElement option"
  canvasRef :: "'p HTMLCanvasElement option"
  date_now :: int
  new_date :: int
  css_filter :: "string \<Rightarrow> 'p \<Rightarrow> 'p"
  encode :: "string \<Rightarrow> rat \<Rightarrow> 'p option list list \<Rightarrow> string"

definition toDataURL :: "'p Browser \<Rightarrow> string \<Rightarrow> rat \<Rightarrow> 'p HTMLCanvasElement \<Rightarrow> string" where
  "toDataURL b mime q c = encode b mime q (raster c)"

section \<open>The callbacks\<close>

text \<open>
  Lines 85 to 96 of \<^verbatim>\<open>capturePhoto\<close>: size the canvas to the frame, set the filter
  of the selected catalog entry (\<^verbatim>\<open>filterObj?.css || 'none'\<close>), mirror for the
  front camera, draw.
\<close>

definition filter_css :: "FilterType \<Rightarrow> string" where
  "filter_css cf =
     (case find (\<lambda>f. name f = cf) filters of
        None \<Rightarrow> ''none''
      | Some filterObj \<Rightarrow> if css filterObj = [] then ''none'' else css filterObj)"

definition drawFrame ::
  "(string \<Rightarrow> 'p \<Rightarrow> 'p) \<Rightarrow> 'p HTMLVideoElement \<Rightarrow> FilterType \<Rightarrow> FacingMode \<Rightarrow>
   'p HTMLCanvasElement \<Rightarrow> 'p HTMLCanvasElement" where
  "drawFrame fx video cf fm canvas =
     (let c1 = set_height (videoHeight video) (set_width (videoWidth video) canvas);
          c2 = c1\<lparr>ctx_filter := filter_css cf\<rparr>;
          c3 = (if fm = user then scale (- 1) 1 (translate (int (canvas_width c2)) 0 c2) else c2)
      in drawImage fx video 0 0 c3)"

text \<open>
  \<^verbatim>\<open>capturePhoto\<close>. The guard returns without any change; a canvas without a 2D
  context returns after the two flags were set. The two \<^verbatim>\<open>setTimeout\<close> callbacks
  are the events \<open>flashTimeout\<close> and \<open>capturingTimeout\<close> below.
\<close>

definition newPhoto :: "'p Browser \<Rightarrow> 'p HTMLVideoElement \<Rightarrow> 'p HTMLCanvasElement \<Rightarrow> AppState \<Rightarrow> Photo" where
  "newPhoto b video canvas s =
     \<lparr>photo_id = toString (date_now b),
      dataUrl = toDataURL b ''image/jpeg'' (9 / 10)
                  (drawFrame (css_filter b) video (currentFilter s) (facingMode s) canvas),
      photo_filter = currentFilter s,
      timestamp = new_date b\<rparr>"

definition capturePhoto :: "'p Browser \<Rightarrow> AppState \<Rightarrow> AppState" where
  "capturePhoto b s =
     (case videoRef b of None \<Rightarrow> s | Some video \<Rightarrow>
      (case canvasRef b of None \<Rightarrow> s | Some canvas \<Rightarrow>
       if filmCount s \<le> 0 then s
       else
         let s1 = s\<lparr>isCapturing := True, flashActive := True\<rparr>
         in if \<not> context2d canvas then s1
            else s1\<lparr>photos := newPhoto b video canvas s # photos s1,
                    filmCount := filmCount s1 - 1\<rparr>))"

definition flashTimeout :: "AppState \<Rightarrow> AppState" where
  "flashTimeout s = s\<lparr>flashActive := False\<rparr>"

definition capturingTimeout :: "AppState \<Rightarrow> AppState" where
  "capturingTimeout s = s\<lparr>isCapturing := False\<rparr>"

text \<open>\<^verbatim>\<open>deletePhoto\<close>, lines 124 to 128.\<close>

definition deletePhoto :: "string \<Rightarrow> AppState \<Rightarrow> AppState" where
  "deletePhoto photoId s =
     s\<lparr>photos := filter (\<lambda>p. photo_id p \<noteq> photoId) (photos s),
       selectedPhoto := None,
       filmCount := min (filmCount s + 1) 24\<rparr>"

text \<open>
  The shutter button, lines 231 to 239: its \<^verbatim>\<open>onClick\<close> is \<^verbatim>\<open>capturePhoto\<close> and it
  is disabled while \<^verbatim>\<open>isCapturing || filmCount <= 0 || isLoading\<close>; a disabled button
  dispatches no click.
\<close>

definition shutterDisabled :: "AppState \<Rightarrow> bool" where
  "shutterDisabled s \<longleftrightarrow> isCapturing s \<or> filmCount s \<le> 0 \<or> isLoading s"

definition shutterClick :: "'p Browser \<Rightarrow> AppState \<Rightarrow> AppState" where
  "shutterClick b s = (if shutterDisabled s then s else capturePhoto b s)"

text \<open>
  The source is ready for a capture when both refs are set and the canvas gives a 2D
  context.
\<close>

definition sourceReady :: "'p Browser \<Rightarrow> bool" where
  "sourceReady b \<longleftrightarrow>
     (case videoRef b of None \<Rightarrow> False | Some video \<Rightarrow>
      (case canvasRef b of None \<Rightarrow> False | Some canvas \<Rightarrow> context2d canvas))"

text \<open>
  The filter dial (\<^verbatim>\<open>setCurrentFilter(filter.name)\<close>) and \<^verbatim>\<open>switchCamera\<close>, lines 113
  to 115.
\<close>

definition setCurrentFilter :: "FilterType \<Rightarrow> AppState \<Rightarrow> AppState" where
  "setCurrentFilter f s = s\<lparr>currentFilter := f\<rparr>"

definition switchCamera :: "AppState \<Rightarrow> AppState" where
  "switchCamera s = s\<lparr>facingMode := (if facingMode s = user then environment else user)\<rparr>"

subsection \<open>Acquiring and releasing the camera\<close>

text \<open>
  \<^verbatim>\<open>getUserMedia\<close> is asynchronous: it either resolves with a new stream or rejects.
  \<^verbatim>\<open>startCamera\<close>, lines 37 to 60, therefore runs in two parts, up to the
  \<^verbatim>\<open>await\<close> and from there on, and other events may come in between.
\<close>

datatype AcquireResult = Granted | Denied

text \<open>
  Beside the React state, the camera side of the component consists of: the
  \<^verbatim>\<open>stream\<close> that the cleanup function of the effect that ran last has in its
  closure; the requests to \<^verbatim>\<open>getUserMedia\<close> that have not settled yet (with the
  facing mode asked for); the number of streams \<^verbatim>\<open>getUserMedia\<close> has returned, the
  streams being numbered \<open>0, 1, 2, \<dots>\<close> in the order they were returned; the streams
  whose tracks were stopped, one entry for each run of
  \<^verbatim>\<open>stream.getTracks().forEach(track => track.stop())\<close>; and the \<^verbatim>\<open>srcObject\<close> of the
  video element. The video element is rendered exactly while \<open>isLoading\<close> is false
  (lines 153 to 167): while \<open>isLoading\<close> is true \<^verbatim>\<open>videoRef.current\<close> is \<^verbatim>\<open>null\<close>, and
  the element rendered afterwards is a new one without a \<^verbatim>\<open>srcObject\<close>.
\<close>

record Camera =
  app :: AppState
  cleanupStream :: "MediaStream option"
  pending :: "FacingMode list"
  acquired :: nat
  stopped :: "MediaStream list"
  srcObject :: "MediaStream option"

text \<open>\<^verbatim>\<open>if (stream) { stream.getTracks().forEach(track => track.stop()); }\<close>\<close>

definition stopTracks :: "MediaStream option \<Rightarrow> Camera \<Rightarrow> Camera" where
  "stopTracks st c = (case st of None \<Rightarrow> c | Some h \<Rightarrow> c\<lparr>stopped := stopped c @ [h]\<rparr>)"

text \<open>
  \<^verbatim>\<open>startCamera\<close> up to the \<^verbatim>\<open>await\<close>: the callback was made by the render that
  ran the effect, so its \<^verbatim>\<open>stream\<close> and \<^verbatim>\<open>facingMode\<close> are the state of that render.
  \<^verbatim>\<open>setIsLoading(true)\<close> takes the video element away.
\<close>

definition startCamera_request :: "Camera \<Rightarrow> Camera" where
  "startCamera_request c =
     (let c1 = c\<lparr>app := (app c)\<lparr>isLoading := True\<rparr>, srcObject := None\<rparr>;
          c2 = stopTracks (stream (app c)) c1
      in c2\<lparr>pending := pending c2 @ [facingMode (app c)]\<rparr>)"

text \<open>
  \<^verbatim>\<open>startCamera\<close> after the \<^verbatim>\<open>await\<close>, when the request at position \<open>k\<close> of the
  pending ones settles: a stream that was granted is stored, and assigned to the video
  element when \<^verbatim>\<open>videoRef.current\<close> is set, that is when \<open>isLoading\<close> is false at that
  moment; a rejection is only logged; in both cases \<^verbatim>\<open>finally\<close> clears \<open>isLoading\<close>.
\<close>

definition startCamera_settle :: "nat \<Rightarrow> AcquireResult \<Rightarrow> Camera \<Rightarrow> Camera" where
  "startCamera_settle k r c =
     (if k < length (pending c) then
        let c1 = c\<lparr>pending := take k (pending c) @ drop (Suc k) (pending c)\<rparr>;
            c2 = (case r of
                    Granted \<Rightarrow>
                      let newStream = acquired c1;
                          c3 = c1\<lparr>acquired := Suc (acquired c1),
                                  app := (app c1)\<lparr>stream := Some newStream\<rparr>\<rparr>
                      in if \<not> isLoading (app c) then c3\<lparr>srcObject := Some newStream\<rparr>
                         else c3
                  | Denied \<Rightarrow> c1)
        in c2\<lparr>app := (app c2)\<lparr>isLoading := False\<rparr>\<rparr>
      else c)"

text \<open>
  The effect of lines 62 to 69 runs at mount and after every render that changed
  \<^verbatim>\<open>facingMode\<close>: first the cleanup the previous run returned, then
  \<^verbatim>\<open>startCamera()\<close>; the cleanup it returns closes over the \<^verbatim>\<open>stream\<close> of this render.
\<close>

definition runEffect :: "Camera \<Rightarrow> Camera" where
  "runEffect c =
     (startCamera_request (stopTracks (cleanupStream c) c))\<lparr>cleanupStream := stream (app c)\<rparr>"

text \<open>
  The events of the camera side while the component is mounted: a click on the switch
  button (\<^verbatim>\<open>switchCamera\<close>, the render, the effect) and the settling of a pending
  request. \<open>mountCamera\<close> is the state after the first run of the effect.
\<close>

datatype CameraEvent = SwitchClick | Settle nat AcquireResult

fun cameraStep :: "CameraEvent \<Rightarrow> Camera \<Rightarrow> Camera" where
  "cameraStep SwitchClick c = runEffect (c\<lparr>app := switchCamera (app c)\<rparr>)"
| "cameraStep (Settle k r) c = startCamera_settle k r c"

definition cameraRun :: "CameraEvent list \<Rightarrow> Camera \<Rightarrow> Camera" where
  "cameraRun es c = fold cameraStep es c"

definition mountCamera :: Camera where
  "mountCamera =
     runEffect \<lparr>app = initialState, cleanupStream = None, pending = [], acquired = 0,
                stopped = [], srcObject = None\<rparr>"

text \<open>
  The streams that are open (returned and never stopped) and the streams that were
  released (returned and stopped).
\<close>

definition live :: "Camera \<Rightarrow> MediaStream list" where
  "live c = filter (\<lambda>h. h \<notin> set (stopped c)) [0..<acquired c]"

definition released :: "Camera \<Rightarrow> MediaStream list" where
  "released c = filter (\<lambda>h. h \<in> set (stopped c)) [0..<acquired c]"

text \<open>A run in which no request is pending whenever the switch button is clicked.\<close>

fun settledBeforeSwitch :: "CameraEvent list \<Rightarrow> Camera \<Rightarrow> bool" where
  "settledBeforeSwitch [] c \<longleftrightarrow> True"
| "settledBeforeSwitch (e # es) c \<longleftrightarrow>
     (e = SwitchClick \<longrightarrow> pending c = []) \<and> settledBeforeSwitch es (cameraStep e c)"

text \<open>The invariant of such runs.\<close>

definition handlesOk :: "Camera \<Rightarrow> bool" where
  "handlesOk c \<longleftrightarrow>
     length (pending c) \<le> 1 \<and>
     (\<forall>h \<in> set (stopped c). h < acquired c) \<and>
     (\<forall>h < acquired c. h \<notin> set (stopped c) \<longrightarrow> stream (app c) = Some h) \<and>
     (pending c \<noteq> [] \<longrightarrow> (\<forall>h < acquired c. h \<in> set (stopped c))) \<and>
     (\<forall>h. cleanupStream c = Some h \<longrightarrow> h \<in> set (stopped c)) \<and>
     (\<forall>h. stream (app c) = Some h \<longrightarrow> h < acquired c)"

text \<open>The part of the camera state the accounting of streams depends on.\<close>

definition cameraView ::
  "Camera \<Rightarrow> MediaStream option \<times> MediaStream option \<times> nat \<times> nat \<times> MediaStream list" where
  "cameraView c = (stream (app c), cleanupStream c, length (pending c), acquired c, stopped c)"

definition tracksOf :: "MediaStream option \<Rightarrow> MediaStream list" where
  "tracksOf st = (case st of None \<Rightarrow> [] | Some h \<Rightarrow> [h])"

subsection \<open>Runs of callbacks\<close>

text \<open>
  A session is a sequence of callback invocations, each on the state the one before
  left. A capture carries what it reads from the browser; \<open>SetStream\<close> and
  \<open>SetIsLoading\<close> are the state updates of \<^verbatim>\<open>startCamera\<close>. \<open>readings\<close> lists the
  \<^verbatim>\<open>Date.now()\<close> values of the captures of a run, in order.
\<close>

datatype 'p Event =
    CapturePhoto "'p Browser"
  | DeletePhoto string
  | SetCurrentFilter FilterType
  | SwitchCamera
  | SetShowGallery bool
  | SetSelectedPhoto "Photo option"
  | FlashTimeout
  | CapturingTimeout
  | SetStream MediaStream
  | SetIsLoading bool

fun handle :: "'p Event \<Rightarrow> AppState \<Rightarrow> AppState" where
  "handle (CapturePhoto b) s = capturePhoto b s"
| "handle (DeletePhoto photoId) s = deletePhoto photoId s"
| "handle (SetCurrentFilter f) s = setCurrentFilter f s"
| "handle SwitchCamera s = switchCamera s"
| "handle (SetShowGallery v) s = s\<lparr>showGallery := v\<rparr>"
| "handle (SetSelectedPhoto p) s = s\<lparr>selectedPhoto := p\<rparr>"
| "handle FlashTimeout s = flashTimeout s"
| "handle CapturingTimeout s = capturingTimeout s"
| "handle (SetStream h) s = s\<lparr>stream := Some h\<rparr>"
| "handle (SetIsLoading v) s = s\<lparr>isLoading := v\<rparr>"

definition run :: "'p Event list \<Rightarrow> AppState \<Rightarrow> AppState" where
  "run es s = fold handle es s"

fun readings :: "'p Event list \<Rightarrow> int list" where
  "readings [] = []"
| "readings (CapturePhoto b # es) = date_now b # readings es"
| "readings (e # es) = readings es"

subsection \<open>Sample inputs\<close>

text \<open>
  A browser with a 3 by 2 frame of numbered pixels, a filter reading that adds the
  length of the CSS string to a pixel, and an encoder that lists the rows.
\<close>

definition sampleVideo :: "nat HTMLVideoElement" where
  "sampleVideo = \<lparr>videoWidth = 3, videoHeight = 2, frame = (\<lambda>x y. 10 * y + x)\<rparr>"

definition sampleCanvas :: "nat HTMLCanvasElement" where
  "sampleCanvas =
     \<lparr>context2d = True, canvas_width = 300, canvas_height = 150, bitmap = (\<lambda>_. None),
      ctm = identityTransform, ctx_filter = ''none''\<rparr>"

definition sampleEncode :: "string \<Rightarrow> rat \<Rightarrow> nat option list list \<Rightarrow> string" where
  "sampleEncode mime q rows =
     ''data:'' @ mime @
     concat (map (\<lambda>r. CHR ''/'' #
       concat (map (\<lambda>p. case p of None \<Rightarrow> ''_'' | Some n \<Rightarrow> CHR '','' # string_of_nat n) r)) rows)"

definition sampleBrowser :: "int \<Rightarrow> nat Browser" where
  "sampleBrowser t =
     \<lparr>videoRef = Some sampleVideo, canvasRef = Some sampleCanvas, date_now = t,
      new_date = t + 1, css_filter = (\<lambda>f p. p + length f), encode = sampleEncode\<rparr>"

definition noFilm :: AppState where
  "noFilm = initialState\<lparr>filmCount := 0, isLoading := False\<rparr>"

definition freshNoir :: AppState where
  "freshNoir = initialState\<lparr>currentFilter := noir, isLoading := False\<rparr>"

definition oneShot :: AppState where
  "oneShot = capturePhoto (sampleBrowser 1000) freshNoir"

definition threeShots :: AppState where
  "threeShots =
     capturePhoto (sampleBrowser 3000) (capturePhoto (sampleBrowser 2000) oneShot)"

definition repeatedShots :: AppState where
  "repeatedShots =
     capturePhoto (sampleBrowser 2000) (capturePhoto (sampleBrowser 1000) oneShot)"

definition sameTick :: AppState where
  "sameTick =
     run [CapturePhoto (sampleBrowser 1000), FlashTimeout, CapturingTimeout,
          SetCurrentFilter sepia, CapturePhoto (sampleBrowser 1000)] freshNoir"

definition sampleTrace :: "nat Event list" where
  "sampleTrace =
     [CapturePhoto (sampleBrowser 1000), FlashTimeout, CapturingTimeout,
      SetCurrentFilter sepia, CapturePhoto (sampleBrowser 2000), DeletePhoto ''1000'',
      CapturePhoto (sampleBrowser 3000)]"

text \<open>
  Two runs of camera events with two switches: one where every request is granted
  before the next click, one where both clicks come while the first request is pending.
\<close>

definition twoSwitches :: "CameraEvent list" where
  "twoSwitches =
     [Settle 0 Granted, SwitchClick, Settle 0 Granted, SwitchClick,
      Settle 0 Granted]"

definition rapidSwitches :: "CameraEvent list" where
  "rapidSwitches =
     [SwitchClick, SwitchClick, Settle 0 Granted, Settle 0 Granted,
      Settle 0 Granted]"

section \<open>Basic facts about the callbacks\<close>

lemma sourceReadyE:
  assumes "sourceReady b"
  obtains video canvas
  where "videoRef b = Some video" "canvasRef b = Some canvas" "context2d canvas"
  using assms by (auto simp: sourceReady_def split: option.splits)

lemma capturePhoto_ready:
  assumes "videoRef b = Some video" "canvasRef b = Some canvas" "context2d canvas"
    and "0 < filmCount s"
  shows "capturePhoto b s =
           s\<lparr>isCapturing := True, flashActive := True,
             photos := newPhoto b video canvas s # photos s, filmCount := filmCount s - 1\<rparr>"
  using assms by (simp add: capturePhoto_def Let_def)

lemma photos_capturePhoto:
  assumes "sourceReady b" "0 < filmCount s"
  shows "\<exists>P. photos (capturePhoto b s) = P # photos s \<and> photo_filter P = currentFilter s
           \<and> photo_id P = toString (date_now b) \<and> timestamp P = new_date b"
proof -
  from assms(1) obtain video canvas where
    r: "videoRef b = Some video" "canvasRef b = Some canvas" "context2d canvas"
    by (rule sourceReadyE)
  show ?thesis
    by (simp add: capturePhoto_ready [OF r assms(2)] newPhoto_def)
qed

lemma filmCount_capturePhoto:
  assumes "sourceReady b" "0 < filmCount s"
  shows "filmCount (capturePhoto b s) = filmCount s - 1"
proof -
  from assms(1) obtain video canvas where
    r: "videoRef b = Some video" "canvasRef b = Some canvas" "context2d canvas"
    by (rule sourceReadyE)
  show ?thesis
    by (simp add: capturePhoto_ready [OF r assms(2)])
qed

lemma newPhoto_sel [simp]:
  "photo_id (newPhoto b video canvas s) = toString (date_now b)"
  "photo_filter (newPhoto b video canvas s) = currentFilter s"
  "timestamp (newPhoto b video canvas s) = new_date b"
  by (simp_all add: newPhoto_def)

lemma filmCount_deletePhoto [simp]: "filmCount (deletePhoto i s) = min (filmCount s + 1) 24"
  by (simp add: deletePhoto_def)

lemma photos_deletePhoto [simp]:
  "photos (deletePhoto i s) = filter (\<lambda>p. photo_id p \<noteq> i) (photos s)"
  by (simp add: deletePhoto_def)

lemma sourceReady_sampleBrowser: "sourceReady (sampleBrowser t)"
  by (simp add: sourceReady_def sampleBrowser_def sampleCanvas_def)

lemma capturePhoto_sample:
  "0 < filmCount s \<Longrightarrow>
     capturePhoto (sampleBrowser t) s =
       s\<lparr>isCapturing := True, flashActive := True,
         photos := newPhoto (sampleBrowser t) sampleVideo sampleCanvas s # photos s,
         filmCount := filmCount s - 1\<rparr>"
  by (rule capturePhoto_ready) (simp_all add: sampleBrowser_def sampleCanvas_def)

lemma date_now_sample [simp]: "date_now (sampleBrowser t) = t"
  by (simp add: sampleBrowser_def)

lemma freshNoir_sel [simp]:
  "filmCount freshNoir = 24" "photos freshNoir = []" "currentFilter freshNoir = noir"
  "facingMode freshNoir = environment" "isCapturing freshNoir = False"
  "isLoading freshNoir = False"
  by (simp_all add: freshNoir_def initialState_def)

lemma toString_samples:
  "toString 1000 = ''1000''" "toString 2000 = ''2000''" "toString 3000 = ''3000''"
  by code_simp+

lemma oneShot_sel:
  "filmCount oneShot = 23" "map photo_id (photos oneShot) = [''1000'']"
  "isCapturing oneShot" "isLoading oneShot = False"
  by (simp_all add: oneShot_def capturePhoto_sample toString_samples)

lemma threeShots_sel:
  "filmCount threeShots = 21"
  "map photo_id (photos threeShots) = [''3000'', ''2000'', ''1000'']"
  by (simp_all add: threeShots_def capturePhoto_sample oneShot_sel oneShot_def toString_samples)

lemma repeatedShots_sel:
  "filmCount repeatedShots = 21"
  "map photo_id (photos repeatedShots) = [''2000'', ''1000'', ''1000'']"
  by (simp_all add: repeatedShots_def capturePhoto_sample oneShot_sel oneShot_def toString_samples)

text \<open>
  When two of the three Photos carry the same identifier, one call removes both: after
  two calls the gallery is empty and the counter is 23.
\<close>

lemma repeatedShots_two_calls: "filmCount (deletePhoto ''1000'' (deletePhoto ''2000'' repeatedShots)) = 23"
  "photos (deletePhoto ''1000'' (deletePhoto ''2000'' repeatedShots)) = []"
proof -
  show "filmCount (deletePhoto ''1000'' (deletePhoto ''2000'' repeatedShots)) = 23"
    by (simp add: repeatedShots_sel)
  have "\<forall>p \<in> set (photos repeatedShots). photo_id p \<in> set (map photo_id (photos repeatedShots))"
    by simp
  then show "photos (deletePhoto ''1000'' (deletePhoto ''2000'' repeatedShots)) = []"
    unfolding repeatedShots_sel(2) by (simp add: filter_empty_conv)
qed

subsection \<open>The decimal numeral of a clock reading determines the reading\<close>

lemma digits_distinct: "distinct ''0123456789''"
  by simp

lemma digit_char_inj: "d < 10 \<Longrightarrow> e < 10 \<Longrightarrow> digit_char d = digit_char e \<Longrightarrow> d = e"
  using nth_eq_iff_index_eq [OF digits_distinct, of d e] by (simp add: digit_char_def)

lemma digit_char_not_minus: "digit_char d \<noteq> CHR ''-''"
proof -
  have "digit_char d \<in> set ''0123456789''"
    unfolding digit_char_def by (rule nth_mem) simp
  then show ?thesis by auto
qed

lemma string_of_nat_not_Nil: "string_of_nat n \<noteq> []"
  by (subst string_of_nat.simps) simp

lemma string_of_nat_digits: "c \<in> set (string_of_nat n) \<Longrightarrow> \<exists>d. c = digit_char d"
proof (induction n rule: string_of_nat.induct)
  case (1 n)
  show ?case
  proof (cases "n < 10")
    case True
    with "1.prems" show ?thesis by (subst (asm) string_of_nat.simps) auto
  next
    case False
    from "1.prems" have "c \<in> set (string_of_nat (n div 10)) \<or> c = digit_char (n mod 10)"
      by (subst (asm) string_of_nat.simps) (auto simp: False)
    then show ?thesis
    proof
      assume "c \<in> set (string_of_nat (n div 10))"
      with "1.IH" False show ?thesis by simp
    next
      assume "c = digit_char (n mod 10)"
      then show ?thesis by blast
    qed
  qed
qed

lemma string_of_nat_inj: "string_of_nat n = string_of_nat m \<Longrightarrow> n = m"
proof (induction n arbitrary: m rule: string_of_nat.induct)
  case (1 n)
  show ?case
  proof (cases "n < 10")
    case n: True
    show ?thesis
    proof (cases "m < 10")
      case True
      with n "1.prems" show ?thesis
        by (simp add: string_of_nat.simps [of n] string_of_nat.simps [of m] digit_char_inj)
    next
      case False
      with n "1.prems" show ?thesis
        using string_of_nat_not_Nil [of "m div 10"]
        by (simp add: string_of_nat.simps [of n] string_of_nat.simps [of m] Cons_eq_append_conv)
    qed
  next
    case n: False
    show ?thesis
    proof (cases "m < 10")
      case True
      with n "1.prems" show ?thesis
        using string_of_nat_not_Nil [of "n div 10"]
        by (simp add: string_of_nat.simps [of n] string_of_nat.simps [of m] append_eq_Cons_conv)
    next
      case False
      with n "1.prems" have "string_of_nat (n div 10) = string_of_nat (m div 10)"
        and d: "digit_char (n mod 10) = digit_char (m mod 10)"
        by (simp_all add: string_of_nat.simps [of n] string_of_nat.simps [of m])
      with "1.IH" n have "n div 10 = m div 10" by simp
      moreover from d have "n mod 10 = m mod 10" by (simp add: digit_char_inj)
      ultimately show ?thesis by (metis div_mult_mod_eq)
    qed
  qed
qed

lemma hd_string_of_nat_not_minus: "hd (string_of_nat n) \<noteq> CHR ''-''"
proof -
  have "hd (string_of_nat n) \<in> set (string_of_nat n)"
    by (simp add: string_of_nat_not_Nil)
  then obtain d where "hd (string_of_nat n) = digit_char d"
    using string_of_nat_digits by blast
  then show ?thesis by (simp add: digit_char_not_minus)
qed

lemma toString_inj: "toString i = toString j \<Longrightarrow> i = j"
proof -
  assume eq: "toString i = toString j"
  show ?thesis
  proof (cases "i < 0")
    case i: True
    show ?thesis
    proof (cases "j < 0")
      case True
      with i eq have "nat (- i) = nat (- j)" by (simp add: toString_def string_of_nat_inj)
      with i True show ?thesis by simp
    next
      case False
      with i eq have "hd (string_of_nat (nat j)) = CHR ''-''"
        by (simp add: toString_def) (metis list.sel(1))
      with hd_string_of_nat_not_minus show ?thesis by blast
    qed
  next
    case i: False
    show ?thesis
    proof (cases "j < 0")
      case True
      with i eq have "hd (string_of_nat (nat i)) = CHR ''-''" by (simp add: toString_def)
      with hd_string_of_nat_not_minus show ?thesis by blast
    next
      case False
      with i eq have "nat i = nat j" by (simp add: toString_def string_of_nat_inj)
      with i False show ?thesis by simp
    qed
  qed
qed

lemma toString_eq_iff [simp]: "toString i = toString j \<longleftrightarrow> i = j"
  using toString_inj by blast

subsection \<open>Identifiers along a run\<close>

lemma photos_capturePhoto_cases:
  "photos (capturePhoto b s) = photos s \<or>
   (\<exists>P. photos (capturePhoto b s) = P # photos s \<and> photo_id P = toString (date_now b))"
  by (auto simp: capturePhoto_def Let_def split: option.splits)

lemma photos_handle_other:
  "(\<forall>b. e \<noteq> CapturePhoto b) \<Longrightarrow> (\<forall>i. e \<noteq> DeletePhoto i) \<Longrightarrow> photos (handle e s) = photos s"
  by (cases e) (simp_all add: setCurrentFilter_def switchCamera_def flashTimeout_def capturingTimeout_def)

lemma readings_other:
  "(\<forall>b. e \<noteq> CapturePhoto b) \<Longrightarrow> readings (e # es) = readings es"
  by (cases e) simp_all

lemma readings_Cons: "readings (e # es) = readings [e] @ readings es"
  by (cases e) simp_all

lemma handle_ids:
  assumes "map photo_id (photos s) = map toString ts" and "sorted_wrt (>) ts"
    and "\<forall>t \<in> set ts. \<forall>c \<in> set (readings [e]). t < c"
  shows "\<exists>ts'. map photo_id (photos (handle e s)) = map toString ts' \<and> sorted_wrt (>) ts' \<and>
           set ts' \<subseteq> set ts \<union> set (readings [e])"
proof (cases e)
  case (CapturePhoto b)
  from photos_capturePhoto_cases [of b s] show ?thesis
  proof
    assume "photos (capturePhoto b s) = photos s"
    with assms CapturePhoto show ?thesis by auto
  next
    assume "\<exists>P. photos (capturePhoto b s) = P # photos s \<and> photo_id P = toString (date_now b)"
    then obtain P where P: "photos (capturePhoto b s) = P # photos s"
      "photo_id P = toString (date_now b)" by blast
    have "map photo_id (photos (handle e s)) = map toString (date_now b # ts)"
      using P assms(1) CapturePhoto by simp
    moreover have "sorted_wrt (>) (date_now b # ts)"
      using assms(2,3) CapturePhoto by auto
    moreover have "set (date_now b # ts) \<subseteq> set ts \<union> set (readings [e])"
      using CapturePhoto by auto
    ultimately show ?thesis by blast
  qed
next
  case (DeletePhoto i)
  have "map photo_id (photos (handle e s)) =
      filter (\<lambda>x. x \<noteq> i) (map photo_id (photos s))"
    using DeletePhoto by (simp add: filter_map comp_def)
  also have "\<dots> = filter (\<lambda>x. x \<noteq> i) (map toString ts)"
    by (simp only: assms(1))
  also have "\<dots> = map toString (filter (\<lambda>t. toString t \<noteq> i) ts)"
    by (simp add: filter_map comp_def)
  finally have "map photo_id (photos (handle e s)) =
      map toString (filter (\<lambda>t. toString t \<noteq> i) ts)" .
  moreover have "sorted_wrt (>) (filter (\<lambda>t. toString t \<noteq> i) ts)"
    using assms(2) by (rule sorted_wrt_filter)
  ultimately show ?thesis by (metis filter_is_subset le_supI1)
qed (use assms in \<open>auto simp: setCurrentFilter_def switchCamera_def flashTimeout_def capturingTimeout_def\<close>)

lemma run_ids:
  assumes "map photo_id (photos s) = map toString ts" and "sorted_wrt (>) ts"
    and "sorted_wrt (<) (readings es)"
    and "\<forall>t \<in> set ts. \<forall>c \<in> set (readings es). t < c"
  shows "\<exists>ts'. map photo_id (photos (run es s)) = map toString ts' \<and> sorted_wrt (>) ts' \<and>
           set ts' \<subseteq> set ts \<union> set (readings es)"
  using assms
proof (induction es arbitrary: s ts)
  case Nil
  then show ?case by (auto simp: run_def)
next
  case (Cons e es)
  have r: "readings (e # es) = readings [e] @ readings es"
    by (rule readings_Cons)
  from Cons.prems(4) have "\<forall>t \<in> set ts. \<forall>c \<in> set (readings [e]). t < c"
    unfolding r by simp
  from handle_ids [OF Cons.prems(1,2) this] obtain ts1 where
    ts1: "map photo_id (photos (handle e s)) = map toString ts1" "sorted_wrt (>) ts1"
      "set ts1 \<subseteq> set ts \<union> set (readings [e])"
    by blast
  from Cons.prems(3) have s': "sorted_wrt (<) (readings es)"
    and lt: "\<forall>x \<in> set (readings [e]). \<forall>c \<in> set (readings es). x < c"
    unfolding r by (simp_all add: sorted_wrt_append)
  have "\<forall>t \<in> set ts1. \<forall>c \<in> set (readings es). t < c"
  proof (intro ballI)
    fix t c assume t: "t \<in> set ts1" and c: "c \<in> set (readings es)"
    from t ts1(3) have "t \<in> set ts \<or> t \<in> set (readings [e])" by blast
    then show "t < c"
    proof
      assume "t \<in> set ts"
      with Cons.prems(4) c show ?thesis unfolding r by simp
    next
      assume "t \<in> set (readings [e])"
      with lt c show ?thesis by blast
    qed
  qed
  from Cons.IH [OF ts1(1,2) s' this] obtain ts2 where
    ts2: "map photo_id (photos (run es (handle e s))) = map toString ts2" "sorted_wrt (>) ts2"
      "set ts2 \<subseteq> set ts1 \<union> set (readings es)"
    by blast
  have "run (e # es) s = run es (handle e s)"
    by (simp add: run_def)
  moreover from ts2(3) ts1(3) have "set ts2 \<subseteq> set ts \<union> set (readings (e # es))"
    unfolding r by auto
  ultimately show ?case
    using ts2(1,2) by auto
qed

lemma sorted_wrt_gt_distinct: "sorted_wrt (>) (ts :: int list) \<Longrightarrow> distinct ts"
  by (induction ts) auto

lemma sameTick_sel:
  "map photo_id (photos sameTick) = [''1000'', ''1000'']"
  "map photo_filter (photos sameTick) = [sepia, noir]"
  by (simp_all add: sameTick_def run_def capturePhoto_sample flashTimeout_def
      capturingTimeout_def setCurrentFilter_def toString_samples)

subsection \<open>Streams along a run of camera events\<close>

lemma handlesOk_mountCamera: "handlesOk mountCamera"
  by (simp add: handlesOk_def mountCamera_def runEffect_def startCamera_request_def
      stopTracks_def initialState_def Let_def)

lemma handlesOkI:
  assumes "length (pending c) \<le> 1"
    and "\<And>h. h \<in> set (stopped c) \<Longrightarrow> h < acquired c"
    and "\<And>h. h < acquired c \<Longrightarrow> h \<notin> set (stopped c) \<Longrightarrow> stream (app c) = Some h"
    and "\<And>h. pending c \<noteq> [] \<Longrightarrow> h < acquired c \<Longrightarrow> h \<in> set (stopped c)"
    and "\<And>h. cleanupStream c = Some h \<Longrightarrow> h \<in> set (stopped c)"
    and "\<And>h. stream (app c) = Some h \<Longrightarrow> h < acquired c"
  shows "handlesOk c"
  unfolding handlesOk_def using assms by blast

lemma handlesOkD:
  assumes "handlesOk c"
  shows "length (pending c) \<le> 1"
    and "h \<in> set (stopped c) \<Longrightarrow> h < acquired c"
    and "h < acquired c \<Longrightarrow> h \<notin> set (stopped c) \<Longrightarrow> stream (app c) = Some h"
    and "pending c \<noteq> [] \<Longrightarrow> h < acquired c \<Longrightarrow> h \<in> set (stopped c)"
    and "cleanupStream c = Some h \<Longrightarrow> h \<in> set (stopped c)"
    and "stream (app c) = Some h \<Longrightarrow> h < acquired c"
  using assms unfolding handlesOk_def by blast+

lemma settle_granted_sel:
  assumes "k < length (pending c)"
  shows "acquired (startCamera_settle k Granted c) = Suc (acquired c)"
    and "stopped (startCamera_settle k Granted c) = stopped c"
    and "stream (app (startCamera_settle k Granted c)) = Some (acquired c)"
    and "cleanupStream (startCamera_settle k Granted c) = cleanupStream c"
    and "pending (startCamera_settle k Granted c) = take k (pending c) @ drop (Suc k) (pending c)"
  using assms by (simp_all add: startCamera_settle_def Let_def)

lemma settle_denied_sel:
  assumes "k < length (pending c)"
  shows "acquired (startCamera_settle k Denied c) = acquired c"
    and "stopped (startCamera_settle k Denied c) = stopped c"
    and "stream (app (startCamera_settle k Denied c)) = stream (app c)"
    and "cleanupStream (startCamera_settle k Denied c) = cleanupStream c"
    and "pending (startCamera_settle k Denied c) = take k (pending c) @ drop (Suc k) (pending c)"
  using assms by (simp_all add: startCamera_settle_def Let_def)

lemma handlesOk_settle:
  assumes ok: "handlesOk c"
  shows "handlesOk (startCamera_settle k r c)"
proof (cases "k < length (pending c)")
  case False
  with ok show ?thesis by (simp add: startCamera_settle_def)
next
  case True
  with handlesOkD(1) [OF ok] have p: "pending c \<noteq> []" and k: "k = 0" and l: "length (pending c) = 1"
    by auto
  from l k have e: "take k (pending c) @ drop (Suc k) (pending c) = []"
    by simp
  have all: "h \<in> set (stopped c)" if "h < acquired c" for h
    using handlesOkD(4) [OF ok p that] .
  show ?thesis
  proof (cases r)
    case Denied
    note sel = settle_denied_sel [OF True, unfolded e]
    show ?thesis
      unfolding Denied
    proof (rule handlesOkI)
      show "length (pending (startCamera_settle k Denied c)) \<le> 1"
        by (simp add: sel)
    next
      fix h assume "h \<in> set (stopped (startCamera_settle k Denied c))"
      then show "h < acquired (startCamera_settle k Denied c)"
        using handlesOkD(2) [OF ok] by (simp add: sel)
    next
      fix h assume "h < acquired (startCamera_settle k Denied c)"
        and "h \<notin> set (stopped (startCamera_settle k Denied c))"
      then show "stream (app (startCamera_settle k Denied c)) = Some h"
        using all [of h] by (simp add: sel)
    next
      fix h assume "pending (startCamera_settle k Denied c) \<noteq> []"
      then show "h \<in> set (stopped (startCamera_settle k Denied c))"
        by (simp add: sel)
    next
      fix h assume "cleanupStream (startCamera_settle k Denied c) = Some h"
      then show "h \<in> set (stopped (startCamera_settle k Denied c))"
        using handlesOkD(5) [OF ok] by (simp add: sel)
    next
      fix h assume "stream (app (startCamera_settle k Denied c)) = Some h"
      then show "h < acquired (startCamera_settle k Denied c)"
        using handlesOkD(6) [OF ok] by (simp add: sel)
    qed
  next
    case Granted
    note sel = settle_granted_sel [OF True, unfolded e]
    show ?thesis
      unfolding Granted
    proof (rule handlesOkI)
      show "length (pending (startCamera_settle k Granted c)) \<le> 1"
        by (simp add: sel)
    next
      fix h assume "h \<in> set (stopped (startCamera_settle k Granted c))"
      then have "h < acquired c"
        using handlesOkD(2) [OF ok] by (simp add: sel)
      then show "h < acquired (startCamera_settle k Granted c)"
        by (simp add: sel)
    next
      fix h assume "h < acquired (startCamera_settle k Granted c)"
        and n: "h \<notin> set (stopped (startCamera_settle k Granted c))"
      then have "h < acquired c \<or> h = acquired c"
        by (auto simp: sel)
      with n all [of h] have "h = acquired c"
        by (auto simp: sel)
      then show "stream (app (startCamera_settle k Granted c)) = Some h"
        by (simp add: sel)
    next
      fix h assume "pending (startCamera_settle k Granted c) \<noteq> []"
      then show "h \<in> set (stopped (startCamera_settle k Granted c))"
        by (simp add: sel)
    next
      fix h assume "cleanupStream (startCamera_settle k Granted c) = Some h"
      then show "h \<in> set (stopped (startCamera_settle k Granted c))"
        using handlesOkD(5) [OF ok] by (simp add: sel)
    next
      fix h assume "stream (app (startCamera_settle k Granted c)) = Some h"
      then show "h < acquired (startCamera_settle k Granted c)"
        by (auto simp: sel)
    qed
  qed
qed

lemma handlesOk_switch:
  assumes "handlesOk c" and "pending c = []"
  shows "handlesOk (cameraStep SwitchClick c)"
proof (cases "stream (app c)")
  case None
  with assms show ?thesis
    by (auto simp: handlesOk_def runEffect_def startCamera_request_def stopTracks_def
        switchCamera_def Let_def split: option.splits)
next
  case (Some h)
  with assms show ?thesis
    by (auto simp: handlesOk_def runEffect_def startCamera_request_def stopTracks_def
        switchCamera_def Let_def split: option.splits)
qed

lemma handlesOk_run:
  assumes "handlesOk c" and "settledBeforeSwitch es c"
  shows "handlesOk (cameraRun es c)"
  using assms
proof (induction es arbitrary: c)
  case Nil
  then show ?case by (simp add: cameraRun_def)
next
  case (Cons e es)
  have "handlesOk (cameraStep e c)"
  proof (cases e)
    case SwitchClick
    with Cons.prems show ?thesis
      using handlesOk_switch [of c] by simp
  next
    case (Settle k r)
    with Cons.prems show ?thesis
      by (simp add: handlesOk_settle)
  qed
  moreover from Cons.prems have "settledBeforeSwitch es (cameraStep e c)"
    by simp
  ultimately have "handlesOk (cameraRun es (cameraStep e c))"
    by (rule Cons.IH)
  then show ?case
    by (simp add: cameraRun_def)
qed

lemma distinct_live [simp]: "distinct (live c)"
  by (simp add: live_def)

lemma length_le_one: "distinct xs \<Longrightarrow> set xs \<subseteq> {x} \<Longrightarrow> length xs \<le> 1"
proof -
  assume d: "distinct xs" and s: "set xs \<subseteq> {x}"
  from d have "length xs = card (set xs)"
    by (simp add: distinct_card)
  also from s have "\<dots> \<le> card {x}"
    by (intro card_mono) simp_all
  finally show ?thesis by simp
qed

lemma handlesOk_live:
  assumes ok: "handlesOk c"
  shows "length (live c) \<le> 1"
    and "set (live c) \<subseteq> set_option (stream (app c))"
    and "pending c \<noteq> [] \<Longrightarrow> live c = []"
proof -
  show s: "set (live c) \<subseteq> set_option (stream (app c))"
  proof
    fix h assume "h \<in> set (live c)"
    then have "h < acquired c" "h \<notin> set (stopped c)"
      by (simp_all add: live_def)
    then have "stream (app c) = Some h"
      by (rule handlesOkD(3) [OF ok])
    then show "h \<in> set_option (stream (app c))"
      by simp
  qed
  show "length (live c) \<le> 1"
  proof (cases "stream (app c)")
    case None
    with s show ?thesis by simp
  next
    case (Some h)
    with s have "set (live c) \<subseteq> {h}" by simp
    then show ?thesis
      by (rule length_le_one [OF distinct_live])
  qed
  show "live c = []" if p: "pending c \<noteq> []"
  proof -
    have "\<forall>h \<in> set [0..<acquired c]. \<not> h \<notin> set (stopped c)"
      using handlesOkD(4) [OF ok p] by simp
    then show ?thesis
      unfolding live_def filter_empty_conv .
  qed
qed

lemma released_live_count: "length (released c) + length (live c) = acquired c"
  using sum_length_filter_compl [of "\<lambda>h. h \<in> set (stopped c)" "[0..<acquired c]"]
  by (simp add: released_def live_def)


lemma view_mountCamera: "cameraView mountCamera = (None, None, 1, 0, [])"
  by (simp add: cameraView_def mountCamera_def runEffect_def startCamera_request_def
      stopTracks_def initialState_def Let_def)

lemma view_switch:
  assumes "cameraView c = (st, cl, n, a, sp)"
  shows "cameraView (cameraStep SwitchClick c) = (st, st, Suc n, a, sp @ tracksOf cl @ tracksOf st)"
proof -
  from assms have v: "stream (app c) = st" "cleanupStream c = cl" "length (pending c) = n"
    "acquired c = a" "stopped c = sp"
    by (simp_all add: cameraView_def)
  have s: "stopped (stopTracks x d) = stopped d @ tracksOf x" for x d
    by (simp add: stopTracks_def tracksOf_def split: option.splits)
  have o: "app (stopTracks x d) = app d" "pending (stopTracks x d) = pending d"
    "acquired (stopTracks x d) = acquired d" for x d
    by (simp_all add: stopTracks_def split: option.splits)
  show ?thesis
    by (simp add: cameraView_def runEffect_def startCamera_request_def Let_def s o
        switchCamera_def v)
qed

lemma view_settle_granted:
  assumes "cameraView c = (st, cl, Suc n, a, sp)" and "k \<le> n"
  shows "cameraView (cameraStep (Settle k Granted) c) = (Some a, cl, n, Suc a, sp)"
proof -
  from assms have v: "stream (app c) = st" "cleanupStream c = cl" "length (pending c) = Suc n"
    "acquired c = a" "stopped c = sp"
    by (simp_all add: cameraView_def)
  with assms(2) have k: "k < length (pending c)" by simp
  from k v(3) have "length (take k (pending c) @ drop (Suc k) (pending c)) = n"
    by simp
  then show ?thesis
    by (simp add: cameraView_def settle_granted_sel [OF k] v)
qed

lemma view_settle_denied:
  assumes "cameraView c = (st, cl, Suc n, a, sp)" and "k \<le> n"
  shows "cameraView (cameraStep (Settle k Denied) c) = (st, cl, n, a, sp)"
proof -
  from assms have v: "stream (app c) = st" "cleanupStream c = cl" "length (pending c) = Suc n"
    "acquired c = a" "stopped c = sp"
    by (simp_all add: cameraView_def)
  with assms(2) have k: "k < length (pending c)" by simp
  from k v(3) have "length (take k (pending c) @ drop (Suc k) (pending c)) = n"
    by simp
  then show ?thesis
    by (simp add: cameraView_def settle_denied_sel [OF k] v)
qed

lemma view_sel:
  assumes "cameraView c = (st, cl, n, a, sp)"
  shows "live c = filter (\<lambda>h. h \<notin> set sp) [0..<a]"
    and "released c = filter (\<lambda>h. h \<in> set sp) [0..<a]"
    and "acquired c = a"
    and "stream (app c) = st"
    and "pending c = [] \<longleftrightarrow> n = 0"
    and "stopped c = sp"
  using assms by (auto simp: cameraView_def live_def released_def)

lemma cameraRun_Cons: "cameraRun (e # es) c = cameraRun es (cameraStep e c)"
  by (simp add: cameraRun_def)

lemma cameraRun_Nil: "cameraRun [] c = c"
  by (simp add: cameraRun_def)

lemma upt3: "[0..<3] = [0, 1, 2]" "[0..<2] = [0, 1]" "[0..<1] = [0]"
  by (simp_all add: upt_conv_Cons)

lemma scenario:
  defines "c1 \<equiv> cameraStep (Settle 0 Granted) mountCamera"
  defines "c2 \<equiv> cameraStep SwitchClick c1"
  defines "c3 \<equiv> cameraStep (Settle 0 Granted) c2"
  defines "c4 \<equiv> cameraStep SwitchClick c3"
  defines "c5 \<equiv> cameraStep (Settle 0 Granted) c4"
  shows "cameraView c1 = (Some 0, None, 0, 1, [])"
    and "cameraView c2 = (Some 0, Some 0, 1, 1, [0])"
    and "cameraView c3 = (Some 1, Some 0, 0, 2, [0])"
    and "cameraView c4 = (Some 1, Some 1, 1, 2, [0, 0, 1])"
    and "cameraView c5 = (Some 2, Some 1, 0, 3, [0, 0, 1])"
proof -
  show v1: "cameraView c1 = (Some 0, None, 0, 1, [])"
    unfolding c1_def using view_settle_granted [OF view_mountCamera [unfolded One_nat_def], of 0] by simp
  show v2: "cameraView c2 = (Some 0, Some 0, 1, 1, [0])"
    unfolding c2_def using view_switch [OF v1] by (simp add: tracksOf_def)
  show v3: "cameraView c3 = (Some 1, Some 0, 0, 2, [0])"
    unfolding c3_def using view_settle_granted [OF v2 [unfolded One_nat_def], of 0] by simp
  show v4: "cameraView c4 = (Some 1, Some 1, 1, 2, [0, 0, 1])"
    unfolding c4_def using view_switch [OF v3] by (simp add: tracksOf_def)
  show v5: "cameraView c5 = (Some 2, Some 1, 0, 3, [0, 0, 1])"
    unfolding c5_def using view_settle_granted [OF v4 [unfolded One_nat_def], of 0]
    by (simp add: numeral_3_eq_3)
qed

lemma rapid_views:
  "cameraView (cameraRun rapidSwitches mountCamera) = (Some 2, None, 0, 3, [])"
proof -
  have v1: "cameraView (cameraStep SwitchClick mountCamera) = (None, None, 2, 0, [])"
    using view_switch [OF view_mountCamera] by (simp add: tracksOf_def)
  have v2: "cameraView (cameraStep SwitchClick (cameraStep SwitchClick mountCamera))
      = (None, None, 3, 0, [])"
    using view_switch [OF v1] by (simp add: tracksOf_def)
  have v3: "cameraView (cameraStep (Settle 0 Granted)
      (cameraStep SwitchClick (cameraStep SwitchClick mountCamera))) = (Some 0, None, 2, 1, [])"
    using view_settle_granted [OF v2 [unfolded numeral_3_eq_3], of 0] by simp
  have v4: "cameraView (cameraStep (Settle 0 Granted) (cameraStep (Settle 0 Granted)
      (cameraStep SwitchClick (cameraStep SwitchClick mountCamera)))) = (Some 1, None, 1, 2, [])"
    using view_settle_granted [OF v3 [unfolded numeral_2_eq_2], of 0] by simp
  have v5: "cameraView (cameraStep (Settle 0 Granted) (cameraStep (Settle 0 Granted)
      (cameraStep (Settle 0 Granted)
      (cameraStep SwitchClick (cameraStep SwitchClick mountCamera))))) = (Some 2, None, 0, 3, [])"
    using view_settle_granted [OF v4 [unfolded One_nat_def], of 0]
    by (simp add: numeral_3_eq_3 numeral_2_eq_2)
  then show ?thesis
    by (simp del: cameraStep.simps add: rapidSwitches_def cameraRun_Cons cameraRun_Nil)
qed

text \<open>
  Runs in which each request has settled before the switch button is clicked again: at
  most one stream is open at any time, an open stream is the one stored in \<open>stream\<close>,
  none is open while a request is pending, and the released and the open streams
  together are the streams acquired. When the first request and the requests of two
  switches are all granted, the open streams after the six steps are none, stream 0,
  none, stream 1, none, stream 2. The tracks of stream 0 are stopped twice, by
  \<^verbatim>\<open>startCamera\<close> and again by the cleanup of the effect.
\<close>

lemma settled_runs_one_open_stream:
  "(settledBeforeSwitch es mountCamera \<longrightarrow>
      length (live (cameraRun es mountCamera)) \<le> 1 \<and>
      set (live (cameraRun es mountCamera)) \<subseteq> set_option (stream (app (cameraRun es mountCamera))) \<and>
      (pending (cameraRun es mountCamera) \<noteq> [] \<longrightarrow> live (cameraRun es mountCamera) = []) \<and>
      length (released (cameraRun es mountCamera)) + length (live (cameraRun es mountCamera)) =
        acquired (cameraRun es mountCamera)) \<and>
   settledBeforeSwitch
     [Settle 0 Granted, SwitchClick, Settle 0 Granted, SwitchClick, Settle 0 Granted]
     mountCamera \<and>
   [live mountCamera,
    live (cameraRun [Settle 0 Granted] mountCamera),
    live (cameraRun [Settle 0 Granted, SwitchClick] mountCamera),
    live (cameraRun [Settle 0 Granted, SwitchClick, Settle 0 Granted] mountCamera),
    live (cameraRun [Settle 0 Granted, SwitchClick, Settle 0 Granted, SwitchClick] mountCamera),
    live (cameraRun [Settle 0 Granted, SwitchClick, Settle 0 Granted, SwitchClick, Settle 0 Granted] mountCamera)]
     = [[], [0], [], [1], [], [2]] \<and>
   acquired (cameraRun
      [Settle 0 Granted, SwitchClick, Settle 0 Granted, SwitchClick, Settle 0 Granted]
      mountCamera) = 3 \<and>
   released (cameraRun
      [Settle 0 Granted, SwitchClick, Settle 0 Granted, SwitchClick, Settle 0 Granted]
      mountCamera) = [0, 1] \<and>
   stream (app (cameraRun
      [Settle 0 Granted, SwitchClick, Settle 0 Granted, SwitchClick, Settle 0 Granted]
      mountCamera)) = Some 2"
proof -
  have a: "settledBeforeSwitch es mountCamera \<longrightarrow>
      length (live (cameraRun es mountCamera)) \<le> 1 \<and>
      set (live (cameraRun es mountCamera)) \<subseteq> set_option (stream (app (cameraRun es mountCamera))) \<and>
      (pending (cameraRun es mountCamera) \<noteq> [] \<longrightarrow> live (cameraRun es mountCamera) = []) \<and>
      length (released (cameraRun es mountCamera)) + length (live (cameraRun es mountCamera)) =
        acquired (cameraRun es mountCamera)"
  proof
    assume "settledBeforeSwitch es mountCamera"
    with handlesOk_mountCamera have "handlesOk (cameraRun es mountCamera)"
      by (rule handlesOk_run)
    from handlesOk_live [OF this] released_live_count [of "cameraRun es mountCamera"]
    show "length (live (cameraRun es mountCamera)) \<le> 1 \<and>
      set (live (cameraRun es mountCamera)) \<subseteq> set_option (stream (app (cameraRun es mountCamera))) \<and>
      (pending (cameraRun es mountCamera) \<noteq> [] \<longrightarrow> live (cameraRun es mountCamera) = []) \<and>
      length (released (cameraRun es mountCamera)) + length (live (cameraRun es mountCamera)) =
        acquired (cameraRun es mountCamera)"
      by blast
  qed
  note v = scenario
  note r = cameraRun_Cons cameraRun_Nil
  have b: "settledBeforeSwitch [Settle 0 Granted, SwitchClick, Settle 0 Granted, SwitchClick, Settle 0 Granted] mountCamera"
    by (simp del: cameraStep.simps add: view_sel(5) [OF v(1)] view_sel(5) [OF v(3)])
  have l: "live mountCamera = []" "live (cameraRun [Settle 0 Granted] mountCamera) = [0]"
    "live (cameraRun [Settle 0 Granted, SwitchClick] mountCamera) = []"
    "live (cameraRun [Settle 0 Granted, SwitchClick, Settle 0 Granted] mountCamera) = [1]"
    "live (cameraRun [Settle 0 Granted, SwitchClick, Settle 0 Granted, SwitchClick]
       mountCamera) = []"
    "live (cameraRun [Settle 0 Granted, SwitchClick, Settle 0 Granted, SwitchClick, Settle 0 Granted] mountCamera) = [2]"
    by (simp_all del: cameraStep.simps add: r view_sel(1) [OF view_mountCamera] view_sel(1) [OF v(1)]
        view_sel(1) [OF v(2)] view_sel(1) [OF v(3)] view_sel(1) [OF v(4)]
        view_sel(1) [OF v(5)] upt3)
  have d: "acquired (cameraRun [Settle 0 Granted, SwitchClick, Settle 0 Granted, SwitchClick, Settle 0 Granted] mountCamera) = 3"
    by (simp del: cameraStep.simps add: r view_sel(3) [OF v(5)])
  have e: "released (cameraRun [Settle 0 Granted, SwitchClick, Settle 0 Granted, SwitchClick, Settle 0 Granted] mountCamera) = [0, 1]"
    by (simp del: cameraStep.simps add: r view_sel(2) [OF v(5)] upt3)
  have f: "stream (app (cameraRun [Settle 0 Granted, SwitchClick, Settle 0 Granted, SwitchClick, Settle 0 Granted] mountCamera)) = Some 2"
    by (simp del: cameraStep.simps add: r view_sel(4) [OF v(5)])
  from a b l d e f show ?thesis
    by simp
qed

lemma settled_two_switches:
  "settledBeforeSwitch twoSwitches mountCamera \<and>
   length (live (cameraRun twoSwitches mountCamera)) \<le> 1 \<and>
   live (cameraRun twoSwitches mountCamera) = [2] \<and>
   acquired (cameraRun twoSwitches mountCamera) = 3 \<and>
   length (released (cameraRun twoSwitches mountCamera)) = 2 \<and>
   stopped (cameraRun twoSwitches mountCamera) = [0, 0, 1]"
  using settled_runs_one_open_stream [of twoSwitches]
    view_sel(6) [OF scenario(5)]
  by (simp del: cameraStep.simps add: twoSwitches_def cameraRun_Cons cameraRun_Nil)

subsection \<open>What \<^verbatim>\<open>drawImage\<close> leaves on the canvas\<close>

lemma fold_put_pixel_miss:
  "cell \<notin> K ` set cs \<Longrightarrow> fold (\<lambda>c. put_pixel w h (K c) (V c)) cs m cell = m cell"
  by (induction cs arbitrary: m) (auto simp: put_pixel_def)

lemma fold_put_pixel_hit:
  assumes "distinct (map K cs)" and "c \<in> set cs"
    and "0 \<le> fst (K c)" "fst (K c) < int w" "0 \<le> snd (K c)" "snd (K c) < int h"
  shows "fold (\<lambda>c. put_pixel w h (K c) (V c)) cs m (K c) = Some (V c)"
  using assms(1,2)
proof (induction cs arbitrary: m)
  case Nil
  then show ?case by simp
next
  case (Cons a cs)
  show ?case
  proof (cases "c = a")
    case True
    with Cons.prems have "K a \<notin> K ` set cs" by simp
    then have "fold (\<lambda>c. put_pixel w h (K c) (V c)) cs (put_pixel w h (K a) (V a) m) (K a)
        = put_pixel w h (K a) (V a) m (K a)"
      by (rule fold_put_pixel_miss)
    moreover from assms(3-6) True have "put_pixel w h (K a) (V a) m (K a) = Some (V a)"
      by (simp add: put_pixel_def)
    ultimately show ?thesis
      using True by simp
  next
    case False
    with Cons.prems have "distinct (map K cs)" "c \<in> set cs" by simp_all
    then show ?thesis by (simp add: Cons.IH)
  qed
qed

lemma distinct_cells:
  assumes "inj_on A {..<W}" 
  shows "distinct (map (\<lambda>c. (A (fst c), int (snd c))) (List.product [0..<W] [0..<H]))"
proof -
  have "inj_on (\<lambda>c. (A (fst c), int (snd c))) (set (List.product [0..<W] [0..<H]))"
    using assms by (auto simp: inj_on_def)
  then show ?thesis
    by (simp add: distinct_map distinct_product)
qed

lemma drawFrame_dims [simp]:
  "canvas_width (drawFrame fx v cf fm canvas) = videoWidth v"
  "canvas_height (drawFrame fx v cf fm canvas) = videoHeight v"
  by (simp_all add: drawFrame_def Let_def drawImage_def set_width_def set_height_def
      scale_def translate_def)

lemma bitmap_drawFrame_environment:
  assumes "x < videoWidth v" "y < videoHeight v"
  shows "bitmap (drawFrame fx v cf environment canvas) (int x, int y)
         = Some (fx (filter_css cf) (frame v x y))"
proof -
  let ?K = "\<lambda>c. (int (fst c), int (snd c))"
  let ?V = "\<lambda>c. fx (filter_css cf) (frame v (fst c) (snd c))"
  have d: "distinct (map ?K (List.product [0..<videoWidth v] [0..<videoHeight v]))"
    by (rule distinct_cells) (simp add: inj_on_def)
  have m: "(x, y) \<in> set (List.product [0..<videoWidth v] [0..<videoHeight v])"
    using assms by simp
  have "fold (\<lambda>c. put_pixel (videoWidth v) (videoHeight v) (?K c) (?V c))
          (List.product [0..<videoWidth v] [0..<videoHeight v]) (\<lambda>_. None) (?K (x, y))
        = Some (?V (x, y))"
    by (rule fold_put_pixel_hit [OF d m]) (use assms in simp_all)
  then show ?thesis
    by (simp add: drawFrame_def Let_def drawImage_def set_width_def set_height_def
        source_cells_def device_col_def device_row_def identityTransform_def split_def)
qed

lemma bitmap_drawFrame_user:
  assumes "x < videoWidth v" "y < videoHeight v"
  shows "bitmap (drawFrame fx v cf user canvas) (int x, int y)
         = Some (fx (filter_css cf) (frame v (videoWidth v - 1 - x) y))"
proof -
  let ?K = "\<lambda>c. (int (videoWidth v) - 1 - int (fst c), int (snd c))"
  let ?V = "\<lambda>c. fx (filter_css cf) (frame v (fst c) (snd c))"
  have d: "distinct (map ?K (List.product [0..<videoWidth v] [0..<videoHeight v]))"
    by (rule distinct_cells) (simp add: inj_on_def)
  have m: "(videoWidth v - 1 - x, y) \<in> set (List.product [0..<videoWidth v] [0..<videoHeight v])"
    using assms by simp
  have "fold (\<lambda>c. put_pixel (videoWidth v) (videoHeight v) (?K c) (?V c))
          (List.product [0..<videoWidth v] [0..<videoHeight v]) (\<lambda>_. None)
          (?K (videoWidth v - 1 - x, y))
        = Some (?V (videoWidth v - 1 - x, y))"
    by (rule fold_put_pixel_hit [OF d m]) (use assms in auto)
  moreover have "?K (videoWidth v - 1 - x, y) = (int x, int y)"
    using assms by auto
  moreover have "device_col \<lparr>m_a = - 1, m_d = 1, m_e = int (videoWidth v), m_f = 0\<rparr> (int i)
      = int (videoWidth v) - 1 - int i" for i
    by (simp add: device_col_def)
  ultimately show ?thesis
    by (simp add: drawFrame_def Let_def drawImage_def set_width_def set_height_def
        source_cells_def device_row_def identityTransform_def split_def scale_def translate_def)
qed

lemma rev_map_upt: "rev (map f [0..<n]) = map (\<lambda>x. f (n - 1 - x)) [0..<n]"
  by (rule nth_equalityI) (simp_all add: rev_nth)

lemma raster_drawFrame_environment:
  "raster (drawFrame fx v cf environment canvas) =
     map (\<lambda>y. map (\<lambda>x. Some (fx (filter_css cf) (frame v x y))) [0..<videoWidth v])
       [0..<videoHeight v]"
  by (simp add: raster_def bitmap_drawFrame_environment)

lemma raster_drawFrame_user:
  "raster (drawFrame fx v cf user canvas) =
     map (\<lambda>y. map (\<lambda>x. Some (fx (filter_css cf) (frame v (videoWidth v - 1 - x) y)))
            [0..<videoWidth v])
       [0..<videoHeight v]"
  by (simp add: raster_def bitmap_drawFrame_user)

section \<open>Capture and the exposure counter\<close>

text \<open>
  Claim C1. In every state with no exposure left (\<open>filmCount = 0\<close>),
  \<^verbatim>\<open>capturePhoto\<close> returns at its guard: the whole state is the one before, so the
  gallery and its length and the counter are unchanged and no Photo was made, whatever
  the browser holds.
\<close>

theorem capture_without_film_is_noop:
  "filmCount s = 0 \<Longrightarrow>
     capturePhoto b s = s \<and>
     photos (capturePhoto b s) = photos s \<and>
     length (photos (capturePhoto b s)) = length (photos s) \<and>
     filmCount (capturePhoto b s) = filmCount s"
  by (simp add: capturePhoto_def split: option.splits)

theorem capture_without_film_is_noop_witness:
  "filmCount noFilm = 0 \<and>
   capturePhoto (sampleBrowser 1000) noFilm = noFilm \<and>
   photos (capturePhoto (sampleBrowser 1000) noFilm) = [] \<and>
   filmCount (capturePhoto (sampleBrowser 1000) noFilm) = 0"
proof -
  have h: "filmCount noFilm = 0"
    by (simp add: noFilm_def)
  from capture_without_film_is_noop [OF h, of "sampleBrowser 1000"] h
  show ?thesis by (simp add: noFilm_def initialState_def)
qed

text \<open>
  Claim C3. With both refs set, a canvas that gives a 2D context and at least one
  exposure left, \<^verbatim>\<open>capturePhoto\<close> lowers the counter by exactly one and puts one new
  Photo in front of the gallery: its identifier is the decimal numeral of the clock
  reading \<^verbatim>\<open>Date.now()\<close> taken at this capture, its payload is the canvas encoded as
  \<^verbatim>\<open>image/jpeg\<close> at quality 0.9, its filter is the selected one and its timestamp is
  the clock reading of \<^verbatim>\<open>new Date()\<close>. From a fresh session (24 exposures, empty
  gallery) with the filter \<^verbatim>\<open>noir\<close> and the back camera, the gallery is one Photo
  with filter \<^verbatim>\<open>noir\<close> and the counter is 23.
\<close>

theorem capture_success:
  assumes "videoRef b = Some video" and "canvasRef b = Some canvas" and "context2d canvas"
    and "0 < filmCount s"
  shows "filmCount (capturePhoto b s) = filmCount s - 1 \<and>
         photos (capturePhoto b s) =
           \<lparr>photo_id = toString (date_now b),
            dataUrl = encode b ''image/jpeg'' (9 / 10)
              (raster (drawFrame (css_filter b) video (currentFilter s) (facingMode s) canvas)),
            photo_filter = currentFilter s,
            timestamp = new_date b\<rparr> # photos s \<and>
         (filmCount s = 24 \<and> photos s = [] \<and> currentFilter s = noir \<and>
          facingMode s = environment \<longrightarrow>
            filmCount (capturePhoto b s) = 23 \<and>
            length (photos (capturePhoto b s)) = 1 \<and>
            map photo_filter (photos (capturePhoto b s)) = [noir])"
  by (simp add: capturePhoto_ready [OF assms] newPhoto_def toDataURL_def)

theorem capture_success_witness:
  "filmCount (capturePhoto (sampleBrowser 1000) freshNoir) = 23 \<and>
   map photo_id (photos (capturePhoto (sampleBrowser 1000) freshNoir)) = [''1000''] \<and>
   map photo_filter (photos (capturePhoto (sampleBrowser 1000) freshNoir)) = [noir] \<and>
   map timestamp (photos (capturePhoto (sampleBrowser 1000) freshNoir)) = [1001] \<and>
   map dataUrl (photos (capturePhoto (sampleBrowser 1000) freshNoir)) =
     [''data:image/jpeg/,42,43,44/,52,53,54'']"
proof -
  have v: "videoRef (sampleBrowser 1000) = Some sampleVideo"
    and c: "canvasRef (sampleBrowser 1000) = Some sampleCanvas"
    and x: "context2d sampleCanvas"
    and f: "0 < filmCount freshNoir"
    by (simp_all add: sampleBrowser_def sampleCanvas_def freshNoir_def initialState_def)
  have i: "toString 1000 = ''1000''"
    by code_simp
  have u: "encode (sampleBrowser 1000) ''image/jpeg'' (9 / 10)
             (raster (drawFrame (css_filter (sampleBrowser 1000)) sampleVideo noir environment sampleCanvas))
           = ''data:image/jpeg/,42,43,44/,52,53,54''"
    by code_simp
  have s: "currentFilter freshNoir = noir" "facingMode freshNoir = environment" "photos freshNoir = []"
    "filmCount freshNoir = 24" "date_now (sampleBrowser 1000) = 1000" "new_date (sampleBrowser 1000) = 1001"
    by (simp_all add: freshNoir_def initialState_def sampleBrowser_def)
  from capture_success [OF v c x f] show ?thesis
    by (simp add: i u s)
qed

section \<open>Deleting a Photo\<close>

text \<open>
  Claim C2. Deleting by the identifier of a Photo that is in the gallery removes that
  Photo (the gallery keeps exactly the Photos with another identifier) and sets the
  counter to \<open>min (filmCount + 1) 24\<close>. From 24 exposures, three captures leave 21;
  one call of \<^verbatim>\<open>deletePhoto\<close> then gives 22 and two more calls give 24, not 25,
  whatever the three identifiers are. When the three calls carry the identifiers of the
  three new Photos, in any order, none of the three is left in the gallery.
\<close>

theorem delete_restores_one_exposure:
  "(P \<in> set (photos s) \<longrightarrow>
      P \<notin> set (photos (deletePhoto (photo_id P) s)) \<and>
      photos (deletePhoto (photo_id P) s) = filter (\<lambda>q. photo_id q \<noteq> photo_id P) (photos s) \<and>
      filmCount (deletePhoto (photo_id P) s) = min (filmCount s + 1) 24) \<and>
   (sourceReady b1 \<and> sourceReady b2 \<and> sourceReady b3 \<and> filmCount s0 = 24 \<longrightarrow>
      filmCount (capturePhoto b3 (capturePhoto b2 (capturePhoto b1 s0))) = 21 \<and>
      filmCount (deletePhoto i (capturePhoto b3 (capturePhoto b2 (capturePhoto b1 s0)))) = 22 \<and>
      filmCount (deletePhoto k (deletePhoto j (deletePhoto i
        (capturePhoto b3 (capturePhoto b2 (capturePhoto b1 s0)))))) = 24 \<and>
      filmCount (deletePhoto k (deletePhoto j (deletePhoto i
        (capturePhoto b3 (capturePhoto b2 (capturePhoto b1 s0)))))) \<noteq> 25 \<and>
      ({toString (date_now b1), toString (date_now b2), toString (date_now b3)} \<subseteq> {i, j, k} \<longrightarrow>
         photos (deletePhoto k (deletePhoto j (deletePhoto i
           (capturePhoto b3 (capturePhoto b2 (capturePhoto b1 s0)))))) =
         filter (\<lambda>q. photo_id q \<notin> {i, j, k}) (photos s0)))"
proof (intro conjI impI)
  assume a: "sourceReady b1 \<and> sourceReady b2 \<and> sourceReady b3 \<and> filmCount s0 = 24"
  let ?s1 = "capturePhoto b1 s0"
  let ?s2 = "capturePhoto b2 ?s1"
  let ?s3 = "capturePhoto b3 ?s2"
  from a have f1: "filmCount ?s1 = 23" by (simp add: filmCount_capturePhoto)
  with a have f2: "filmCount ?s2 = 22" by (simp add: filmCount_capturePhoto)
  with a show f3: "filmCount ?s3 = 21" by (simp add: filmCount_capturePhoto)
  then show "filmCount (deletePhoto i ?s3) = 22" by simp
  from f3 show "filmCount (deletePhoto k (deletePhoto j (deletePhoto i ?s3))) = 24" by simp
  from f3 show "filmCount (deletePhoto k (deletePhoto j (deletePhoto i ?s3))) \<noteq> 25" by simp
  assume sub: "{toString (date_now b1), toString (date_now b2), toString (date_now b3)} \<subseteq> {i, j, k}"
  from a obtain P1 where p1: "photos ?s1 = P1 # photos s0" "photo_id P1 = toString (date_now b1)"
    using photos_capturePhoto [of b1 s0] by auto
  from a f1 obtain P2 where p2: "photos ?s2 = P2 # P1 # photos s0" "photo_id P2 = toString (date_now b2)"
    using photos_capturePhoto [of b2 ?s1] p1 by auto
  from a f2 obtain P3 where p3: "photos ?s3 = P3 # P2 # P1 # photos s0" "photo_id P3 = toString (date_now b3)"
    using photos_capturePhoto [of b3 ?s2] p2 by auto
  from sub have m: "photo_id P1 \<in> {i, j, k}" "photo_id P2 \<in> {i, j, k}" "photo_id P3 \<in> {i, j, k}"
    unfolding p1(2) p2(2) p3(2) by blast+
  have "photos (deletePhoto k (deletePhoto j (deletePhoto i ?s3))) =
      filter (\<lambda>q. photo_id q \<notin> {i, j, k}) (photos ?s3)"
    by (simp only: photos_deletePhoto filter_filter) (rule filter_cong, auto)
  also from m have "\<dots> = filter (\<lambda>q. photo_id q \<notin> {i, j, k}) (photos s0)"
    unfolding p3(1) by simp
  finally show "photos (deletePhoto k (deletePhoto j (deletePhoto i ?s3))) =
      filter (\<lambda>q. photo_id q \<notin> {i, j, k}) (photos s0)" .
qed simp_all

theorem delete_restores_one_exposure_witness:
  "hd (photos threeShots) \<in> set (photos threeShots) \<and>
   hd (photos threeShots) \<notin> set (photos (deletePhoto ''3000'' threeShots)) \<and>
   filmCount threeShots = 21 \<and>
   filmCount (deletePhoto ''2000'' threeShots) = 22 \<and>
   filmCount (deletePhoto ''1000'' (deletePhoto ''3000'' (deletePhoto ''2000'' threeShots))) = 24 \<and>
   photos (deletePhoto ''1000'' (deletePhoto ''3000'' (deletePhoto ''2000'' threeShots))) = [] \<and>
   filmCount repeatedShots = 21 \<and>
   filmCount (deletePhoto ''2000'' repeatedShots) = 22 \<and>
   filmCount (deletePhoto ''1000'' (deletePhoto ''1000'' (deletePhoto ''2000'' repeatedShots))) = 24 \<and>
   photos (deletePhoto ''1000'' (deletePhoto ''1000'' (deletePhoto ''2000'' repeatedShots))) = []"
proof -
  have ne: "photos threeShots \<noteq> []"
    using threeShots_sel(2) by auto
  then have m: "hd (photos threeShots) \<in> set (photos threeShots)"
    by simp
  have i: "photo_id (hd (photos threeShots)) = ''3000''"
    using threeShots_sel(2) ne by (cases "photos threeShots") simp_all
  have h: "sourceReady (sampleBrowser 1000) \<and> sourceReady (sampleBrowser 2000) \<and>
      sourceReady (sampleBrowser 3000) \<and> filmCount freshNoir = 24"
    by (simp add: sourceReady_sampleBrowser)
  have h': "sourceReady (sampleBrowser 1000) \<and> sourceReady (sampleBrowser 1000) \<and>
      sourceReady (sampleBrowser 2000) \<and> filmCount freshNoir = 24"
    by (simp add: sourceReady_sampleBrowser)
  have u: "{toString (date_now (sampleBrowser 1000)), toString (date_now (sampleBrowser 2000)),
         toString (date_now (sampleBrowser 3000))} \<subseteq> {''2000'', ''3000'', ''1000''}"
    by (simp add: toString_samples)
  have u': "{toString (date_now (sampleBrowser 1000)), toString (date_now (sampleBrowser 1000)),
         toString (date_now (sampleBrowser 2000))} \<subseteq> {''2000'', ''1000'', ''1000''}"
    by (simp add: toString_samples)
  from delete_restores_one_exposure
    [where P = "hd (photos threeShots)" and s = threeShots
       and ?b1.0 = "sampleBrowser 1000" and ?b2.0 = "sampleBrowser 2000"
       and ?b3.0 = "sampleBrowser 3000" and ?s0.0 = freshNoir
       and i = "''2000''" and j = "''3000''" and k = "''1000''"]
    delete_restores_one_exposure
    [where P = "hd (photos threeShots)" and s = threeShots
       and ?b1.0 = "sampleBrowser 1000" and ?b2.0 = "sampleBrowser 1000"
       and ?b3.0 = "sampleBrowser 2000" and ?s0.0 = freshNoir
       and i = "''2000''" and j = "''1000''" and k = "''1000''"]
    m i h h' u u'
  show ?thesis
    unfolding threeShots_def oneShot_def repeatedShots_def by simp
qed

text \<open>
  Claim C10. When no Photo of the gallery has the identifier passed to
  \<^verbatim>\<open>deletePhoto\<close>, the gallery stays as it is and the counter is still set to
  \<open>min (filmCount + 1) 24\<close>: one more exposure below 24, and 24 at 24, with no Photo
  removed.
\<close>

theorem delete_absent_id:
  "\<forall>p \<in> set (photos s). photo_id p \<noteq> photoId \<Longrightarrow>
     photos (deletePhoto photoId s) = photos s \<and>
     filmCount (deletePhoto photoId s) = min (filmCount s + 1) 24 \<and>
     (filmCount s < 24 \<longrightarrow> filmCount (deletePhoto photoId s) = filmCount s + 1) \<and>
     (filmCount s = 24 \<longrightarrow> filmCount (deletePhoto photoId s) = 24)"
  by (simp add: deletePhoto_def)

theorem delete_absent_id_witness:
  "''999'' \<notin> set (map photo_id (photos oneShot)) \<and>
   photos (deletePhoto ''999'' oneShot) = photos oneShot \<and>
   length (photos (deletePhoto ''999'' oneShot)) = 1 \<and>
   filmCount oneShot = 23 \<and>
   filmCount (deletePhoto ''999'' oneShot) = 24"
proof -
  have n: "''999'' \<notin> set (map photo_id (photos oneShot))"
    by (simp add: oneShot_sel)
  have h: "\<forall>p \<in> set (photos oneShot). photo_id p \<noteq> ''999''"
  proof (intro ballI notI)
    fix p assume m: "p \<in> set (photos oneShot)" and e: "photo_id p = ''999''"
    from m have "photo_id p \<in> set (map photo_id (photos oneShot))"
      by simp
    with n e show False
      by simp
  qed
  have l: "length (photos oneShot) = 1"
    using arg_cong [OF oneShot_sel(2), of length] by simp
  from delete_absent_id [OF h] n l show ?thesis
    by (simp add: oneShot_sel)
qed

section \<open>The filter and the order of the gallery\<close>

text \<open>
  Claim C5. For every descriptor \<open>F\<close> of the catalog \<open>filters\<close>, a capture that
  succeeds while \<open>F\<close> is the selected filter puts in front of the gallery a Photo whose
  stored filter is the identity \<open>name F\<close>.
\<close>

theorem filter_roundtrip:
  assumes "F \<in> set filters" and "sourceReady b" and "0 < filmCount s"
    and "currentFilter s = name F"
  shows "\<exists>P. photos (capturePhoto b s) = P # photos s \<and> photo_filter P = name F"
  using photos_capturePhoto [OF assms(2,3)] assms(4) by auto

theorem filter_roundtrip_witness:
  "length filters = 6 \<and>
   map (\<lambda>F. map photo_filter
          (photos (capturePhoto (sampleBrowser 1000) (freshNoir\<lparr>currentFilter := name F\<rparr>))))
     filters =
   [[none], [vintage], [sepia], [polaroid], [noir], [faded]]"
proof -
  have "map photo_filter
          (photos (capturePhoto (sampleBrowser 1000) (freshNoir\<lparr>currentFilter := name F\<rparr>)))
        = [name F]" if "F \<in> set filters" for F
    using filter_roundtrip [OF that sourceReady_sampleBrowser,
        of "freshNoir\<lparr>currentFilter := name F\<rparr>" 1000]
    by (auto simp: freshNoir_def initialState_def)
  then have "map (\<lambda>F. map photo_filter
          (photos (capturePhoto (sampleBrowser 1000) (freshNoir\<lparr>currentFilter := name F\<rparr>))))
     filters = map (\<lambda>F. [name F]) filters"
    by simp
  then show ?thesis
    by (simp add: filters_def)
qed

text \<open>
  Claim C6. Every capture that succeeds puts its Photo in front of the gallery, so
  three captures from an empty gallery, producing \<open>P1\<close>, then \<open>P2\<close>, then \<open>P3\<close>,
  leave the gallery \<open>[P3, P2, P1]\<close>.
\<close>

theorem gallery_newest_first:
  "(sourceReady b \<and> 0 < filmCount s \<longrightarrow>
      (\<exists>P. photos (capturePhoto b s) = P # photos s)) \<and>
   (sourceReady b1 \<and> sourceReady b2 \<and> sourceReady b3 \<and> photos s0 = [] \<and> 3 \<le> filmCount s0 \<longrightarrow>
      (\<exists>P1 P2 P3.
         photos (capturePhoto b1 s0) = [P1] \<and>
         photos (capturePhoto b2 (capturePhoto b1 s0)) = [P2, P1] \<and>
         photos (capturePhoto b3 (capturePhoto b2 (capturePhoto b1 s0))) = [P3, P2, P1]))"
proof (intro conjI impI)
  assume "sourceReady b \<and> 0 < filmCount s"
  then show "\<exists>P. photos (capturePhoto b s) = P # photos s"
    using photos_capturePhoto [of b s] by blast
next
  assume a: "sourceReady b1 \<and> sourceReady b2 \<and> sourceReady b3 \<and> photos s0 = [] \<and> 3 \<le> filmCount s0"
  let ?s1 = "capturePhoto b1 s0"
  let ?s2 = "capturePhoto b2 ?s1"
  let ?s3 = "capturePhoto b3 ?s2"
  from a have f0: "0 < filmCount s0" by simp
  from a obtain P1 where p1: "photos ?s1 = [P1]"
    using photos_capturePhoto [of b1 s0] by auto
  from a have f1: "0 < filmCount ?s1"
    by (simp add: filmCount_capturePhoto)
  with a obtain P2 where p2: "photos ?s2 = [P2, P1]"
    using photos_capturePhoto [of b2 ?s1] p1 by auto
  from a f1 have f2: "0 < filmCount ?s2"
    by (simp add: filmCount_capturePhoto)
  with a obtain P3 where p3: "photos ?s3 = [P3, P2, P1]"
    using photos_capturePhoto [of b3 ?s2] p2 by auto
  from p1 p2 p3 show "\<exists>P1 P2 P3. photos ?s1 = [P1] \<and> photos ?s2 = [P2, P1] \<and> photos ?s3 = [P3, P2, P1]"
    by blast
qed

theorem gallery_newest_first_witness:
  "sourceReady (sampleBrowser 1000) \<and> sourceReady (sampleBrowser 2000) \<and>
   sourceReady (sampleBrowser 3000) \<and> photos freshNoir = [] \<and> 3 \<le> filmCount freshNoir \<and>
   (\<exists>P1 P2 P3.
      photos oneShot = [P1] \<and>
      photos (capturePhoto (sampleBrowser 2000) oneShot) = [P2, P1] \<and>
      photos threeShots = [P3, P2, P1])"
proof -
  have h: "sourceReady (sampleBrowser 1000) \<and> sourceReady (sampleBrowser 2000) \<and>
      sourceReady (sampleBrowser 3000) \<and> photos freshNoir = [] \<and> 3 \<le> filmCount freshNoir"
    by (simp add: sourceReady_sampleBrowser)
  from gallery_newest_first
    [where ?b1.0 = "sampleBrowser 1000" and ?b2.0 = "sampleBrowser 2000"
       and ?b3.0 = "sampleBrowser 3000" and ?s0.0 = freshNoir]
    h
  show ?thesis
    unfolding threeShots_def oneShot_def by blast
qed

section \<open>The shutter button\<close>

text \<open>
  Claim C7. While \<open>isCapturing\<close> is set the shutter button is disabled, so a click on
  it changes nothing: the state after the click, with its gallery and its counter, is
  the state before, and there is no other outcome. In particular the click that starts
  a capture sets \<open>isCapturing\<close>, and a second click before the 300 ms timer clears the
  flag is ignored.
\<close>

theorem shutter_ignored_while_capturing:
  "(isCapturing s \<longrightarrow>
      shutterClick b s = s \<and> photos (shutterClick b s) = photos s \<and>
      filmCount (shutterClick b s) = filmCount s) \<and>
   (sourceReady b \<and> \<not> shutterDisabled s \<longrightarrow>
      isCapturing (shutterClick b s) \<and> shutterClick b' (shutterClick b s) = shutterClick b s)"
proof (intro conjI impI)
  assume "isCapturing s"
  then show e: "shutterClick b s = s"
    by (simp add: shutterClick_def shutterDisabled_def)
  then show "photos (shutterClick b s) = photos s"
    by simp
  from e show "filmCount (shutterClick b s) = filmCount s"
    by simp
next
  assume a: "sourceReady b \<and> \<not> shutterDisabled s"
  then have f: "0 < filmCount s" by (simp add: shutterDisabled_def)
  from a obtain video canvas where
    r: "videoRef b = Some video" "canvasRef b = Some canvas" "context2d canvas"
    by (blast elim: sourceReadyE)
  from a show c: "isCapturing (shutterClick b s)"
    by (simp add: shutterClick_def capturePhoto_ready [OF r f])
  then show "shutterClick b' (shutterClick b s) = shutterClick b s"
    by (simp add: shutterClick_def [of b'] shutterDisabled_def)
qed

theorem shutter_ignored_while_capturing_witness:
  "isCapturing oneShot \<and> shutterClick (sampleBrowser 1100) oneShot = oneShot \<and>
   sourceReady (sampleBrowser 1000) \<and> \<not> shutterDisabled freshNoir \<and>
   shutterClick (sampleBrowser 1100) (shutterClick (sampleBrowser 1000) freshNoir) =
     shutterClick (sampleBrowser 1000) freshNoir"
proof -
  have c: "isCapturing oneShot"
    by (rule oneShot_sel)
  have h: "sourceReady (sampleBrowser 1000) \<and> \<not> shutterDisabled freshNoir"
    by (simp add: sourceReady_sampleBrowser shutterDisabled_def)
  from shutter_ignored_while_capturing
    [where s = oneShot and b = "sampleBrowser 1100"]
    shutter_ignored_while_capturing
    [where s = freshNoir and b = "sampleBrowser 1000" and b' = "sampleBrowser 1100"]
    c h
  show ?thesis by blast
qed

section \<open>The front camera is mirrored\<close>

text \<open>
  Claim C4. For every frame, filter and canvas, the bitmap drawn for the front camera
  (\<^verbatim>\<open>facingMode === 'user'\<close>: \<^verbatim>\<open>translate(canvas.width, 0)\<close>, \<^verbatim>\<open>scale(-1, 1)\<close>) is
  the bitmap drawn for the back camera with every row reversed, and the bitmap drawn
  for the back camera is the frame itself, pixel by pixel, through the filter. So a
  capture with the front camera stores the encoding of the row-reversed bitmap of the
  capture with the back camera of the same frame.
\<close>

theorem front_capture_is_mirrored:
  "raster (drawFrame fx video cf user canvas) =
     map rev (raster (drawFrame fx video cf environment canvas)) \<and>
   raster (drawFrame fx video cf environment canvas) =
     map (\<lambda>y. map (\<lambda>x. Some (fx (filter_css cf) (frame video x y))) [0..<videoWidth video])
       [0..<videoHeight video] \<and>
   (videoRef b = Some video \<and> canvasRef b = Some canvas \<and> context2d canvas \<and> 0 < filmCount s \<longrightarrow>
      map dataUrl (photos (capturePhoto b (s\<lparr>facingMode := user\<rparr>))) =
        encode b ''image/jpeg'' (9 / 10)
          (map rev (raster (drawFrame (css_filter b) video (currentFilter s) environment canvas)))
        # map dataUrl (photos s) \<and>
      map dataUrl (photos (capturePhoto b (s\<lparr>facingMode := environment\<rparr>))) =
        encode b ''image/jpeg'' (9 / 10)
          (raster (drawFrame (css_filter b) video (currentFilter s) environment canvas))
        # map dataUrl (photos s))"
proof -
  have flip: "raster (drawFrame fx' video cf' user canvas) =
      map rev (raster (drawFrame fx' video cf' environment canvas))" for fx' :: "string \<Rightarrow> 'a \<Rightarrow> 'a" and cf'
    by (simp add: raster_drawFrame_user raster_drawFrame_environment rev_map_upt)
  have "map dataUrl (photos (capturePhoto b (s\<lparr>facingMode := fm\<rparr>))) =
      encode b ''image/jpeg'' (9 / 10)
        (raster (drawFrame (css_filter b) video (currentFilter s) fm canvas))
      # map dataUrl (photos s)"
    if "videoRef b = Some video" "canvasRef b = Some canvas" "context2d canvas" "0 < filmCount s"
    for fm
    using that by (simp add: capturePhoto_ready [OF that(1-3)] newPhoto_def toDataURL_def)
  from this [of user] this [of environment] flip [of fx cf] flip [of "css_filter b" "currentFilter s"]
  show ?thesis
    by (simp add: raster_drawFrame_environment)
qed

theorem front_capture_is_mirrored_witness:
  "raster (drawFrame (\<lambda>f p. p) sampleVideo noir environment sampleCanvas) =
     [[Some 0, Some 1, Some 2], [Some 10, Some 11, Some 12]] \<and>
   raster (drawFrame (\<lambda>f p. p) sampleVideo noir user sampleCanvas) =
     [[Some 2, Some 1, Some 0], [Some 12, Some 11, Some 10]] \<and>
   map dataUrl (photos (capturePhoto (sampleBrowser 1000) (freshNoir\<lparr>facingMode := environment\<rparr>))) =
     [''data:image/jpeg/,42,43,44/,52,53,54''] \<and>
   map dataUrl (photos (capturePhoto (sampleBrowser 1000) (freshNoir\<lparr>facingMode := user\<rparr>))) =
     [''data:image/jpeg/,44,43,42/,54,53,52'']"
proof -
  have h: "videoRef (sampleBrowser 1000) = Some sampleVideo \<and>
      canvasRef (sampleBrowser 1000) = Some sampleCanvas \<and> context2d sampleCanvas \<and>
      0 < filmCount freshNoir"
    by (simp add: sampleBrowser_def sampleCanvas_def)
  have r: "map (\<lambda>y. map (\<lambda>x. Some (frame sampleVideo x y)) [0..<videoWidth sampleVideo])
             [0..<videoHeight sampleVideo] =
           [[Some 0, Some 1, Some 2], [Some 10, Some 11, Some (12::nat)]]"
    by code_simp
  have e: "encode (sampleBrowser 1000) ''image/jpeg'' (9 / 10)
             (raster (drawFrame (css_filter (sampleBrowser 1000)) sampleVideo noir environment
                sampleCanvas)) = ''data:image/jpeg/,42,43,44/,52,53,54''"
    by code_simp
  have m: "encode (sampleBrowser 1000) ''image/jpeg'' (9 / 10)
             (map rev (raster (drawFrame (css_filter (sampleBrowser 1000)) sampleVideo noir
                environment sampleCanvas))) = ''data:image/jpeg/,44,43,42/,54,53,52''"
    by code_simp
  from front_capture_is_mirrored
    [where fx = "\<lambda>f p. p" and video = sampleVideo and cf = noir and canvas = sampleCanvas
       and b = "sampleBrowser 1000" and s = freshNoir]
    h
  show ?thesis
    by (simp add: r e m)
qed

section \<open>Photo identifiers\<close>

text \<open>
  Claim C8, as the code has it. The identifier of a Photo is the decimal numeral of
  the \<^verbatim>\<open>Date.now()\<close> reading of its capture, and nothing else makes it unique. In
  every run from an empty gallery whose captures read strictly increasing clock values,
  the identifiers in the gallery are the numerals of readings of the run, strictly
  decreasing from the front (newest) to the back, so they are pairwise different:
  two different Photos of the gallery never share an identifier. Deletions and the
  other callbacks keep this.
\<close>

theorem ids_of_increasing_readings:
  assumes "photos s0 = []" and "sorted_wrt (<) (readings es)"
  shows "(\<exists>ts. map photo_id (photos (run es s0)) = map toString ts \<and> sorted_wrt (>) ts \<and>
            set ts \<subseteq> set (readings es)) \<and>
         distinct (map photo_id (photos (run es s0))) \<and>
         (\<forall>P \<in> set (photos (run es s0)). \<forall>Q \<in> set (photos (run es s0)).
            P \<noteq> Q \<longrightarrow> photo_id P \<noteq> photo_id Q)"
proof -
  from run_ids [of s0 "[]" es] assms obtain ts where
    ts: "map photo_id (photos (run es s0)) = map toString ts" "sorted_wrt (>) ts"
      "set ts \<subseteq> set (readings es)"
    by auto
  have "distinct (map toString ts)"
    using sorted_wrt_gt_distinct [OF ts(2)] by (simp add: distinct_map inj_on_def)
  with ts(1) have d: "distinct (map photo_id (photos (run es s0)))"
    by simp
  then have "inj_on photo_id (set (photos (run es s0)))"
    by (simp add: distinct_map)
  then have "\<forall>P \<in> set (photos (run es s0)). \<forall>Q \<in> set (photos (run es s0)).
            P \<noteq> Q \<longrightarrow> photo_id P \<noteq> photo_id Q"
    by (auto simp: inj_on_def)
  with ts d show ?thesis by blast
qed

theorem ids_of_increasing_readings_witness:
  "photos freshNoir = [] \<and> readings sampleTrace = [1000, 2000, 3000] \<and>
   sorted_wrt (<) (readings sampleTrace) \<and>
   distinct (map photo_id (photos (run sampleTrace freshNoir))) \<and>
   map photo_id (photos (run sampleTrace freshNoir)) = [''3000'', ''2000'']"
proof -
  have r: "readings sampleTrace = [1000, 2000, 3000]"
    by (simp add: sampleTrace_def)
  have h: "sorted_wrt (<) (readings sampleTrace)"
    by (simp add: r)
  have i: "map photo_id (photos (run sampleTrace freshNoir)) = [''3000'', ''2000'']"
    by (simp add: sampleTrace_def run_def capturePhoto_sample flashTimeout_def
        capturingTimeout_def setCurrentFilter_def toString_samples)
  from ids_of_increasing_readings [OF freshNoir_sel(2) h] r h i show ?thesis
    by simp
qed

text \<open>
  Claim C8, as stated, fails when two captures read the same clock value: after a
  capture at reading 1000 with the filter \<^verbatim>\<open>noir\<close>, the two timers, the selection of
  \<^verbatim>\<open>sepia\<close> and a second capture at reading 1000, the gallery holds two different
  Photos with the same identifier.
\<close>

theorem same_reading_same_id:
  "length (photos sameTick) = 2 \<and>
   photos sameTick ! 0 \<in> set (photos sameTick) \<and>
   photos sameTick ! 1 \<in> set (photos sameTick) \<and>
   photos sameTick ! 0 \<noteq> photos sameTick ! 1 \<and>
   photo_id (photos sameTick ! 0) = photo_id (photos sameTick ! 1)"
proof -
  have l: "length (photos sameTick) = 2"
    using arg_cong [OF sameTick_sel(1), of length] by simp
  have f: "photo_filter (photos sameTick ! 0) = sepia" "photo_filter (photos sameTick ! 1) = noir"
    using arg_cong [OF sameTick_sel(2), of "\<lambda>xs. xs ! 0"]
      arg_cong [OF sameTick_sel(2), of "\<lambda>xs. xs ! 1"] l by simp_all
  have i: "photo_id (photos sameTick ! 0) = ''1000''" "photo_id (photos sameTick ! 1) = ''1000''"
    using arg_cong [OF sameTick_sel(1), of "\<lambda>xs. xs ! 0"]
      arg_cong [OF sameTick_sel(1), of "\<lambda>xs. xs ! 1"] l by simp_all
  from f have "photos sameTick ! 0 \<noteq> photos sameTick ! 1"
    by auto
  with l i show ?thesis
    by simp
qed

section \<open>Switching the camera\<close>

text \<open>
  Claim C9 says that after two switches exactly one stream is open, every acquisition
  having released the stream before it, so that the releases are one fewer than the
  acquisitions. The code does not do this when the switch button is clicked twice while
  the first request is still pending: the two callbacks were made by renders whose
  \<open>stream\<close> was still \<^verbatim>\<open>null\<close>, and so were the cleanups, so nothing is stopped; once
  the three requests are granted, the streams 0, 1 and 2 are all open, no stream was
  released and no track was ever stopped.
\<close>

theorem rapid_switches_leak:
  "live (cameraRun rapidSwitches mountCamera) = [0, 1, 2] \<and>
   length (live (cameraRun rapidSwitches mountCamera)) = 3 \<and>
   acquired (cameraRun rapidSwitches mountCamera) = 3 \<and>
   stopped (cameraRun rapidSwitches mountCamera) = [] \<and>
   released (cameraRun rapidSwitches mountCamera) = [] \<and>
   length (released (cameraRun rapidSwitches mountCamera)) \<noteq>
     acquired (cameraRun rapidSwitches mountCamera) - 1 \<and>
   stream (app (cameraRun rapidSwitches mountCamera)) = Some 2"
  by (simp add: view_sel(1-4,6) [OF rapid_views] upt3)

end
